theory Spec2Isabelle
  imports Complex_Main "HOL-Library.Word" "HOL-Library.Monad_Syntax"
begin

unbundle bit_operations_syntax

section \<open>Machine integers of the C++ source\<close>

text \<open>
  The source is C++ with \<open>unsigned char\<close> (8 bits), \<open>unsigned int\<close> (32 bits, arithmetic
  modulo \<open>2^32\<close>), \<open>int\<close> (32 bits, signed), \<open>long long\<close> (64 bits, signed) and
  \<open>size_t\<close> (64 bits, unsigned). Unsigned values are words. Signed values are modelled as
  \<open>int\<close> together with their range: an operation whose result leaves the range is
  undefined behaviour in C++ and is the value \<open>None\<close> in the model, as is an out-of-range
  shift and an out-of-range read of a vector.
\<close>

type_synonym u8 = "8 word"
type_synonym u32 = "32 word"

definition INT_MAX :: int where
  "INT_MAX = 2147483647"

definition LLONG_MAX :: int where
  "LLONG_MAX = 9223372036854775807"

text \<open>Conversion of a \<open>size_t\<close> value to \<open>int\<close> and to \<open>long long\<close> (two's complement).\<close>

definition size_to_int :: "nat \<Rightarrow> int" where
  "size_to_int n = sint (word_of_nat n :: 32 word)"

definition size_to_llong :: "nat \<Rightarrow> int" where
  "size_to_llong n = sint (word_of_nat n :: 64 word)"

text \<open>The operators \<open>/\<close> and \<open>%\<close> of C++ on signed integers truncate towards zero.\<close>

definition c_div :: "int \<Rightarrow> int \<Rightarrow> int" where
  "c_div x y = sgn x * sgn y * (\<bar>x\<bar> div \<bar>y\<bar>)"

definition c_rem :: "int \<Rightarrow> int \<Rightarrow> int" where
  "c_rem x y = sgn x * (\<bar>x\<bar> mod \<bar>y\<bar>)"

section \<open>Constants\<close>

text \<open>
  The table \<open>const unsigned int K[]\<close>, one definition for each of the eight lines of
  its initialiser.
\<close>

definition K_line1 :: "u32 list" where
  "K_line1 = [0x428a2f98, 0x71374491, 0xb5c0fbcf, 0xe9b5dba5, 0x3956c25b, 0x59f111f1, 0x923f82a4, 0xab1c5ed5]"

definition K_line2 :: "u32 list" where
  "K_line2 = [0xd807aa98, 0x12835b01, 0x243185be, 0x550c7dc3, 0x72be5d74, 0x80deb1fe, 0x9bdc06a7, 0xc19bf174]"

definition K_line3 :: "u32 list" where
  "K_line3 = [0xe49b69c1, 0xefbe4786, 0x0fc19dc6, 0x240ca1cc, 0x2de92c6f, 0x4a7484aa, 0x5cb0a9dc, 0x76f988da]"

definition K_line4 :: "u32 list" where
  "K_line4 = [0x983e5152, 0xa831c66d, 0xb00327c8, 0xbf597fc7, 0xc6e00bf3, 0xd5a79147, 0x06ca6351, 0x14292967]"

definition K_line5 :: "u32 list" where
  "K_line5 = [0x27b70a85, 0x2e1b2138, 0x4d2c6dfc, 0x53380d13, 0x650a7354, 0x766a0abb, 0x81c2c92e, 0x92722c85]"

definition K_line6 :: "u32 list" where
  "K_line6 = [0xa2bfe8a1, 0xa81a664b, 0xc24b8b70, 0xc76c51a3, 0xd192e819, 0xd6990624, 0xf40e3585, 0x106aa070]"

definition K_line7 :: "u32 list" where
  "K_line7 = [0x19a4c116, 0x1e376c08, 0x2748774c, 0x34b0bcb5, 0x391c0cb3, 0x4ed8aa4a, 0x5b9cca4f, 0x682e6ff3]"

definition K_line8 :: "u32 list" where
  "K_line8 = [0x748f82ee, 0x78a5636f, 0x84c87814, 0x8cc70208, 0x90befffa, 0xa4506ceb, 0xbef9a3f7, 0xc67178f2]"

definition K :: "u32 list" where
  "K = K_line1 @ K_line2 @ K_line3 @ K_line4 @ K_line5 @ K_line6 @ K_line7 @ K_line8"

text \<open>The initial hash value, a local of \<open>getHash\<close> that every call builds afresh.\<close>

definition H0 :: "u32 list" where
  "H0 = [0x6a09e667, 0xbb67ae85, 0x3c6ef372, 0xa54ff53a,
         0x510e527f, 0x9b05688c, 0x1f83d9ab, 0x5be0cd19]"

section \<open>The shared mutable globals\<close>

text \<open>
  \<open>unsigned int W[64]\<close> and \<open>unsigned int a, b, c, d, e, f, g, h, T1, T2\<close> are globals of
  the program. The array is a function from its index; the fields carry the prefix \<open>g\<close>
  for the sake of the variables named \<open>a\<close> to \<open>h\<close> elsewhere.
\<close>

record globals =
  gW :: "nat \<Rightarrow> u32"
  ga :: u32
  gb :: u32
  gc :: u32
  gd :: u32
  ge :: u32
  gf :: u32
  gg :: u32
  gh :: u32
  gT1 :: u32
  gT2 :: u32

text \<open>The state at program start: globals are zero-initialised.\<close>

definition globals0 :: globals where
  "globals0 = \<lparr>gW = (\<lambda>_. 0), ga = 0, gb = 0, gc = 0, gd = 0, ge = 0, gf = 0, gg = 0, gh = 0,
     gT1 = 0, gT2 = 0\<rparr>"

section \<open>The eight logical functions\<close>

text \<open>
  A shift of a 32-bit operand by 32 or more is undefined. The amount \<open>n\<close> is an
  \<open>unsigned int\<close>, so \<open>32 - n\<close> is computed modulo \<open>2^32\<close>.
\<close>

definition SHR :: "u32 \<Rightarrow> u32 \<Rightarrow> u32 option" where
  "SHR n x = (if unat n < 32 then Some (drop_bit (unat n) x) else None)"

definition ROTR :: "u32 \<Rightarrow> u32 \<Rightarrow> u32 option" where
  "ROTR n x =
     (if unat n < 32 \<and> unat (32 - n) < 32
      then Some (drop_bit (unat n) x OR push_bit (unat (32 - n)) x)
      else None)"

definition Ch :: "u32 \<Rightarrow> u32 \<Rightarrow> u32 \<Rightarrow> u32" where
  "Ch x y z = (x AND y) XOR (NOT x AND z)"

definition Maj :: "u32 \<Rightarrow> u32 \<Rightarrow> u32 \<Rightarrow> u32" where
  "Maj x y z = (x AND y) XOR (x AND z) XOR (y AND z)"

definition capitalSigma_0 :: "u32 \<Rightarrow> u32 option" where
  "capitalSigma_0 x = do {
     r1 \<leftarrow> ROTR 2 x; r2 \<leftarrow> ROTR 13 x; r3 \<leftarrow> ROTR 22 x;
     Some (r1 XOR r2 XOR r3) }"

definition capitalSigma_1 :: "u32 \<Rightarrow> u32 option" where
  "capitalSigma_1 x = do {
     r1 \<leftarrow> ROTR 6 x; r2 \<leftarrow> ROTR 11 x; r3 \<leftarrow> ROTR 25 x;
     Some (r1 XOR r2 XOR r3) }"

definition lowercaseSigma0 :: "u32 \<Rightarrow> u32 option" where
  "lowercaseSigma0 x = do {
     r1 \<leftarrow> ROTR 7 x; r2 \<leftarrow> ROTR 18 x; r3 \<leftarrow> SHR 3 x;
     Some (r1 XOR r2 XOR r3) }"

definition lowercaseSigma1 :: "u32 \<Rightarrow> u32 option" where
  "lowercaseSigma1 x = do {
     r1 \<leftarrow> ROTR 17 x; r2 \<leftarrow> ROTR 19 x; r3 \<leftarrow> SHR 10 x;
     Some (r1 XOR r2 XOR r3) }"

section \<open>The hash computation\<close>

text \<open>
  \<open>getHash\<close>, one block: the two loops that fill \<open>W\<close>, the load of the working variables
  from \<open>Hash[i - 1]\<close>, the 64 rounds and the intermediate hash value. \<open>M[i - 1][t]\<close> and
  \<open>Hash[i - 1][j]\<close> are reads of vectors, undefined out of range.
\<close>

definition vec_at :: "'a list \<Rightarrow> nat \<Rightarrow> 'a option" where
  "vec_at xs i = (if i < length xs then Some (xs ! i) else None)"

definition schedule_copy :: "u32 list \<Rightarrow> nat \<Rightarrow> globals \<Rightarrow> globals option" where
  "schedule_copy blk t s = do {
     w \<leftarrow> vec_at blk t;
     Some (s\<lparr>gW := (gW s)(t := w)\<rparr>) }"

definition schedule_expand :: "nat \<Rightarrow> globals \<Rightarrow> globals option" where
  "schedule_expand t s = do {
     s1 \<leftarrow> lowercaseSigma1 (gW s (t - 2));
     s0 \<leftarrow> lowercaseSigma0 (gW s (t - 15));
     Some (s\<lparr>gW := (gW s)(t := s1 + gW s (t - 7) + s0 + gW s (t - 16))\<rparr>) }"

definition load_registers :: "u32 list \<Rightarrow> globals \<Rightarrow> globals option" where
  "load_registers prev s = do {
     v0 \<leftarrow> vec_at prev 0; v1 \<leftarrow> vec_at prev 1; v2 \<leftarrow> vec_at prev 2; v3 \<leftarrow> vec_at prev 3;
     v4 \<leftarrow> vec_at prev 4; v5 \<leftarrow> vec_at prev 5; v6 \<leftarrow> vec_at prev 6; v7 \<leftarrow> vec_at prev 7;
     Some (s\<lparr>ga := v0, gb := v1, gc := v2, gd := v3, ge := v4, gf := v5, gg := v6, gh := v7\<rparr>) }"

definition round_step :: "nat \<Rightarrow> globals \<Rightarrow> globals option" where
  "round_step t s = do {
     S1 \<leftarrow> capitalSigma_1 (ge s);
     k \<leftarrow> vec_at K t;
     let s = s\<lparr>gT1 := gh s + S1 + Ch (ge s) (gf s) (gg s) + k + gW s t\<rparr>;
     S0 \<leftarrow> capitalSigma_0 (ga s);
     let s = s\<lparr>gT2 := S0 + Maj (ga s) (gb s) (gc s)\<rparr>;
     let s = s\<lparr>gh := gg s\<rparr>;
     let s = s\<lparr>gg := gf s\<rparr>;
     let s = s\<lparr>gf := ge s\<rparr>;
     let s = s\<lparr>ge := gd s + gT1 s\<rparr>;
     let s = s\<lparr>gd := gc s\<rparr>;
     let s = s\<lparr>gc := gb s\<rparr>;
     let s = s\<lparr>gb := ga s\<rparr>;
     let s = s\<lparr>ga := gT1 s + gT2 s\<rparr>;
     Some s }"

definition intermediate_hash :: "u32 list \<Rightarrow> globals \<Rightarrow> u32 list option" where
  "intermediate_hash prev s = do {
     v0 \<leftarrow> vec_at prev 0; v1 \<leftarrow> vec_at prev 1; v2 \<leftarrow> vec_at prev 2; v3 \<leftarrow> vec_at prev 3;
     v4 \<leftarrow> vec_at prev 4; v5 \<leftarrow> vec_at prev 5; v6 \<leftarrow> vec_at prev 6; v7 \<leftarrow> vec_at prev 7;
     Some [ga s + v0, gb s + v1, gc s + v2, gd s + v3, ge s + v4, gf s + v5, gg s + v6, gh s + v7] }"

text \<open>A counted loop whose body may be undefined: the first failure ends the run.\<close>

definition for_loop :: "nat list \<Rightarrow> (nat \<Rightarrow> 's \<Rightarrow> 's option) \<Rightarrow> 's \<Rightarrow> 's option" where
  "for_loop ts body s = fold (\<lambda>t r. r \<bind> body t) ts (Some s)"

text \<open>The body of the loop over the blocks, for block number \<open>i\<close> (from 1).\<close>

definition hash_block ::
  "u32 list list \<Rightarrow> nat \<Rightarrow> u32 list list \<times> globals \<Rightarrow> (u32 list list \<times> globals) option" where
  "hash_block M i = (\<lambda>(Hash, s). do {
     blk \<leftarrow> vec_at M (i - 1);
     s \<leftarrow> for_loop [0..<16] (schedule_copy blk) s;
     s \<leftarrow> for_loop [16..<64] schedule_expand s;
     prev \<leftarrow> vec_at Hash (i - 1);
     s \<leftarrow> load_registers prev s;
     s \<leftarrow> for_loop [0..<64] round_step s;
     currentBlock \<leftarrow> intermediate_hash prev s;
     Some (Hash @ [currentBlock], s) })"

text \<open>
  \<open>int N = M.size()\<close> converts to 32 bits; the loop \<open>for (int i = 1; i <= N; ++i)\<close> runs for
  \<open>i\<close> from 1 to \<open>N\<close> and not at all when \<open>N < 1\<close>. With \<open>N = INT_MAX\<close> the last \<open>++i\<close>
  overflows.
\<close>

definition getHash :: "globals \<Rightarrow> u32 list list \<Rightarrow> (u32 list list \<times> globals) option" where
  "getHash s M =
     (let Hash = [H0];
          N = size_to_int (length M)
      in if N = INT_MAX then None
         else for_loop [1..<nat N + 1] (hash_block M) (Hash, s))"

section \<open>Padding\<close>

text \<open>
  \<open>getPadding\<close>: \<open>int k = 0; while ((length + 1 + k) % 512 != 448) ++k; return k;\<close> with
  \<open>length\<close> a \<open>long long\<close>. The sum is formed in \<open>long long\<close>, \<open>++k\<close> in \<open>int\<close>;
  either overflowing is undefined.
\<close>

function getPadding_loop :: "int \<Rightarrow> int \<Rightarrow> int option" where
  "getPadding_loop len k =
     (if LLONG_MAX < len + 1 \<or> LLONG_MAX < len + 1 + k then None
      else if c_rem (len + 1 + k) 512 \<noteq> 448 then
        (if INT_MAX \<le> k then None else getPadding_loop len (k + 1))
      else Some k)"
  by pat_completeness auto
termination
  by (relation "measure (\<lambda>(len, k). nat (INT_MAX - k))") auto

definition getPadding :: "int \<Rightarrow> int option" where
  "getPadding len = getPadding_loop len 0"

text \<open>
  \<open>paddingMessage\<close>: \<open>M.size()*8\<close> is computed in \<open>size_t\<close> and converted to \<open>long long\<close>;
  \<open>l >> (64 - i * 8)\<close> is an arithmetic shift, and \<open>push_back\<close> keeps its low 8 bits.
\<close>

definition paddingMessage :: "u8 list \<Rightarrow> u8 list option" where
  "paddingMessage M = do {
     k \<leftarrow> getPadding (size_to_llong (length M * 8));
     let l = size_to_llong (length M * 8);
     let M = M @ [0x80];
     let k = k - 7;
     let M = fold (\<lambda>i M. M @ [0]) [0..<nat (c_div k 8)] M;
     let M = fold (\<lambda>i M. M @ [word_of_int (drop_bit (64 - i * 8) l)]) [1..<9] M;
     Some M }"

section \<open>Parsing\<close>

text \<open>
  \<open>parsingMessage\<close>: the byte index \<open>i\<close> is an \<open>int\<close> that runs over the whole input, so
  \<open>++i\<close> is undefined once \<open>i\<close> is \<open>INT_MAX\<close>; this happens long before the
  \<open>unsigned int n\<close> could wrap.
\<close>

definition parse_byte :: "u8 list \<Rightarrow> nat \<Rightarrow> u32 \<times> int \<Rightarrow> (u32 \<times> int) option" where
  "parse_byte bytes k = (\<lambda>(word, i). do {
     let word = push_bit 8 word;
     b \<leftarrow> (if 0 \<le> i then vec_at bytes (nat i) else None);
     let word = word OR ucast b;
     if INT_MAX \<le> i then None else Some (word, i + 1) })"

definition parse_word :: "u8 list \<Rightarrow> nat \<Rightarrow> u32 list \<times> int \<Rightarrow> (u32 list \<times> int) option" where
  "parse_word bytes j = (\<lambda>(block, i). do {
     (word, i) \<leftarrow> for_loop [0..<4] (parse_byte bytes) (0, i);
     Some (block[j := word], i) })"

definition parse_block ::
  "u8 list \<Rightarrow> nat \<Rightarrow> u32 list list \<times> int \<Rightarrow> (u32 list list \<times> int) option" where
  "parse_block bytes n = (\<lambda>(M, i). do {
     (block, i) \<leftarrow> for_loop [0..<16] (parse_word bytes) (replicate 16 0, i);
     Some (M @ [block], i) })"

definition parsingMessage :: "u8 list \<Rightarrow> u32 list list option" where
  "parsingMessage bytes =
     map_option fst (for_loop [0..<length bytes div 64] (parse_block bytes) ([], 0))"

section \<open>Printing and the per-line pipeline of main\<close>

text \<open>
  \<open>std::cout << std::hex << std::setw(8) << std::setfill('0') << H[N][i]\<close> writes the
  value in lower-case hexadecimal without leading zeros, padded on the left to 8 characters.
\<close>

definition hex_digit :: "nat \<Rightarrow> char" where
  "hex_digit d = ''0123456789abcdef'' ! d"

fun hex_str :: "nat \<Rightarrow> string" where
  "hex_str n = (if n < 16 then [hex_digit n] else hex_str (n div 16) @ [hex_digit (n mod 16)])"

definition setw_fill :: "nat \<Rightarrow> char \<Rightarrow> string \<Rightarrow> string" where
  "setw_fill w c s = replicate (w - length s) c @ s"

definition print_word :: "u32 list list \<Rightarrow> int \<Rightarrow> nat \<Rightarrow> string \<Rightarrow> string option" where
  "print_word H N i out = do {
     row \<leftarrow> (if 0 \<le> N then vec_at H (nat N) else None);
     v \<leftarrow> vec_at row i;
     Some (out @ setw_fill 8 (CHR ''0'') (hex_str (unat v))) }"

definition printHash :: "u32 list list \<Rightarrow> int \<Rightarrow> string option" where
  "printHash H N = do {
     out \<leftarrow> for_loop [0..<8] (print_word H N) [];
     Some (out @ [CHR 0x0A]) }"

text \<open>
  The body of the loop of \<open>main\<close> from the decoded bytes on: what is written to the
  standard output, and the globals afterwards.
\<close>

definition main_line :: "globals \<Rightarrow> u8 list \<Rightarrow> (string \<times> globals) option" where
  "main_line s message = do {
     message \<leftarrow> paddingMessage message;
     parsed_message \<leftarrow> parsingMessage message;
     (Hash, s) \<leftarrow> getHash s parsed_message;
     out \<leftarrow> printHash Hash (size_to_int (length parsed_message));
     Some (out, s) }"

section \<open>The specification's functions\<close>

text \<open>
  The functions of the specification on 32-bit words, total: \<open>x >> n\<close> is \<open>drop_bit n x\<close>,
  \<open>x << n\<close> is \<open>push_bit n x\<close> (bits shifted out are lost), addition is modulo \<open>2^32\<close>.
\<close>

definition ROTR_spec :: "nat \<Rightarrow> u32 \<Rightarrow> u32" where
  "ROTR_spec n x = drop_bit n x OR push_bit (32 - n) x"

definition SHR_spec :: "nat \<Rightarrow> u32 \<Rightarrow> u32" where
  "SHR_spec n x = drop_bit n x"

definition Ch_spec :: "u32 \<Rightarrow> u32 \<Rightarrow> u32 \<Rightarrow> u32" where
  "Ch_spec x y z = (x AND y) XOR (NOT x AND z)"

definition Maj_spec :: "u32 \<Rightarrow> u32 \<Rightarrow> u32 \<Rightarrow> u32" where
  "Maj_spec x y z = (x AND y) XOR (x AND z) XOR (y AND z)"

definition Sigma0_spec :: "u32 \<Rightarrow> u32" where
  "Sigma0_spec x = ROTR_spec 2 x XOR ROTR_spec 13 x XOR ROTR_spec 22 x"

definition Sigma1_spec :: "u32 \<Rightarrow> u32" where
  "Sigma1_spec x = ROTR_spec 6 x XOR ROTR_spec 11 x XOR ROTR_spec 25 x"

definition sigma0_spec :: "u32 \<Rightarrow> u32" where
  "sigma0_spec x = ROTR_spec 7 x XOR ROTR_spec 18 x XOR SHR_spec 3 x"

definition sigma1_spec :: "u32 \<Rightarrow> u32" where
  "sigma1_spec x = ROTR_spec 17 x XOR ROTR_spec 19 x XOR SHR_spec 10 x"

function schedule_spec :: "u32 list \<Rightarrow> nat \<Rightarrow> u32" where
  "schedule_spec blk t =
     (if t < 16 then blk ! t
      else sigma1_spec (schedule_spec blk (t - 2)) + schedule_spec blk (t - 7)
           + sigma0_spec (schedule_spec blk (t - 15)) + schedule_spec blk (t - 16))"
  by pat_completeness auto
termination
  by (relation "measure (\<lambda>(blk, t). t)") auto

declare schedule_spec.simps [simp del]

type_synonym regs = "u32 \<times> u32 \<times> u32 \<times> u32 \<times> u32 \<times> u32 \<times> u32 \<times> u32"

definition round_spec :: "u32 \<Rightarrow> u32 \<Rightarrow> regs \<Rightarrow> regs" where
  "round_spec k w = (\<lambda>(a, b, c, d, e, f, g, h).
     let T1 = h + Sigma1_spec e + Ch e f g + k + w;
         T2 = Sigma0_spec a + Maj a b c
     in (T1 + T2, a, b, c, d + T1, e, f, g))"

fun rounds_spec :: "u32 list \<Rightarrow> nat \<Rightarrow> regs \<Rightarrow> regs" where
  "rounds_spec blk 0 r = r"
| "rounds_spec blk (Suc t) r = round_spec (K ! t) (schedule_spec blk t) (rounds_spec blk t r)"

definition compress_spec :: "u32 list \<Rightarrow> u32 list \<Rightarrow> u32 list" where
  "compress_spec H blk =
     (case rounds_spec blk 64 (H ! 0, H ! 1, H ! 2, H ! 3, H ! 4, H ! 5, H ! 6, H ! 7) of
        (a, b, c, d, e, f, g, h) \<Rightarrow>
          [H ! 0 + a, H ! 1 + b, H ! 2 + c, H ! 3 + d, H ! 4 + e, H ! 5 + f, H ! 6 + g, H ! 7 + h])"

fun hash_chain_spec :: "u32 list \<Rightarrow> u32 list list \<Rightarrow> u32 list list" where
  "hash_chain_spec H [] = [H]"
| "hash_chain_spec H (blk # blks) = H # hash_chain_spec (compress_spec H blk) blks"

definition regs_of :: "globals \<Rightarrow> regs" where
  "regs_of s = (ga s, gb s, gc s, gd s, ge s, gf s, gg s, gh s)"


section \<open>Evaluation on numerals\<close>

text \<open>
  The same functions in a form that the simplifier evaluates on numerals: \<open>norm32\<close> is the
  identity and marks where a numeral is reduced modulo \<open>2^32\<close>; the message schedule is a
  list that grows by one word per step.
\<close>

definition norm32 :: "u32 \<Rightarrow> u32" where
  "norm32 w = w"

definition sched_step :: "nat \<Rightarrow> u32 list \<Rightarrow> u32 list" where
  "sched_step t ws = ws @ [norm32 (sigma1_spec (ws ! (t - 2)) + ws ! (t - 7)
      + sigma0_spec (ws ! (t - 15)) + ws ! (t - 16))]"

definition round_eval :: "u32 \<times> u32 \<Rightarrow> regs \<Rightarrow> regs" where
  "round_eval = (\<lambda>(k, w) (a, b, c, d, e, f, g, h).
     let T1 = norm32 (h + Sigma1_spec e + Ch e f g + k + w);
         T2 = norm32 (Sigma0_spec a + Maj a b c)
     in (norm32 (T1 + T2), a, b, c, norm32 (d + T1), e, f, g))"

definition compress_eval :: "u32 list \<Rightarrow> u32 list \<Rightarrow> u32 list" where
  "compress_eval H blk =
     (case fold round_eval (zip K (fold sched_step [16..<64] blk))
             (H ! 0, H ! 1, H ! 2, H ! 3, H ! 4, H ! 5, H ! 6, H ! 7) of
        (a, b, c, d, e, f, g, h) \<Rightarrow>
          [norm32 (H ! 0 + a), norm32 (H ! 1 + b), norm32 (H ! 2 + c), norm32 (H ! 3 + d),
           norm32 (H ! 4 + e), norm32 (H ! 5 + f), norm32 (H ! 6 + g), norm32 (H ! 7 + h)])"

section \<open>The specification of padding, parsing and the digest\<close>

text \<open>
  \<open>be_bytes n L\<close> is \<open>L\<close> as an unsigned big-endian integer of \<open>n\<close> bytes and \<open>be_value\<close>
  reads such bytes back. \<open>zero_bytes_spec n\<close> is the number of zero bytes after the byte
  \<open>0x80\<close> for a message of \<open>n\<close> bytes. \<open>is_padded_length L P\<close> says that \<open>P\<close> is the
  multiple of 512 in \<open>[L + 65, L + 65 + 512)\<close>, that is the smallest multiple of 512 that
  is at least \<open>L + 1 + 64\<close>.
\<close>

fun be_bytes :: "nat \<Rightarrow> nat \<Rightarrow> u8 list" where
  "be_bytes 0 L = []"
| "be_bytes (Suc n) L = be_bytes n (L div 256) @ [word_of_nat L]"

definition be_value :: "u8 list \<Rightarrow> nat" where
  "be_value bs = foldl (\<lambda>v b. 256 * v + unat b) 0 bs"

definition zero_bytes_spec :: "nat \<Rightarrow> nat" where
  "zero_bytes_spec n = nat ((55 - int n) mod 64)"

definition is_padded_length :: "nat \<Rightarrow> nat \<Rightarrow> bool" where
  "is_padded_length L P \<longleftrightarrow> 512 dvd P \<and> L + 65 \<le> P \<and> P < L + 65 + 512"

definition pad_spec :: "u8 list \<Rightarrow> u8 list" where
  "pad_spec m = m @ [0x80] @ replicate (zero_bytes_spec (length m)) 0 @ be_bytes 8 (length m * 8)"

text \<open>
  A word is assembled from four bytes, the most significant first; block \<open>n\<close> of the
  parsed message is made of the 64 bytes from index \<open>64 * n\<close> on.
\<close>

definition be32_spec :: "u8 \<Rightarrow> u8 \<Rightarrow> u8 \<Rightarrow> u8 \<Rightarrow> u32" where
  "be32_spec b0 b1 b2 b3 =
     word_of_nat (unat b0 * 2 ^ 24 + unat b1 * 2 ^ 16 + unat b2 * 2 ^ 8 + unat b3)"

definition word_at :: "u8 list \<Rightarrow> nat \<Rightarrow> u32" where
  "word_at bytes i = be32_spec (bytes ! i) (bytes ! (i + 1)) (bytes ! (i + 2)) (bytes ! (i + 3))"

definition block_at :: "u8 list \<Rightarrow> nat \<Rightarrow> u32 list" where
  "block_at bytes n = map (\<lambda>j. word_at bytes (64 * n + 4 * j)) [0..<16]"

definition parse_spec :: "u8 list \<Rightarrow> u32 list list" where
  "parse_spec bytes = map (block_at bytes) [0..<length bytes div 64]"

text \<open>
  The digest of a message, the eight hexadecimal digits of a word and the line that is
  printed for a digest.
\<close>

definition sha256_spec :: "u8 list \<Rightarrow> u32 list" where
  "sha256_spec m = last (hash_chain_spec H0 (parse_spec (pad_spec m)))"

definition hex8 :: "u32 \<Rightarrow> string" where
  "hex8 v = setw_fill 8 (CHR ''0'') (hex_str (unat v))"

definition print_spec :: "u32 list \<Rightarrow> string" where
  "print_spec ws = concat (map hex8 ws) @ [CHR 0x0A]"

text \<open>
  The loop of \<open>main\<close> over the decoded input lines: the lines that are printed, in order,
  and the globals at the end.
\<close>

fun main_loop :: "globals \<Rightarrow> u8 list list \<Rightarrow> (string list \<times> globals) option" where
  "main_loop s [] = Some ([], s)"
| "main_loop s (m # ms) = do {
     (out, s) \<leftarrow> main_line s m;
     (outs, s) \<leftarrow> main_loop s ms;
     Some (out # outs, s) }"

section \<open>The specification of the constants\<close>

text \<open>
  A prime has no divisor from 2 up to itself; \<open>root_frac32 N p\<close> is the first 32 bits of
  the fractional part of the \<open>N\<close>-th root of \<open>p\<close>.
\<close>

definition is_prime_nat :: "nat \<Rightarrow> bool" where
  "is_prime_nat p \<longleftrightarrow> 1 < p \<and> filter (\<lambda>d. d dvd p) [2..<p] = []"

definition primes_below :: "nat \<Rightarrow> nat list" where
  "primes_below n = filter is_prime_nat [0..<n]"

definition root_frac32 :: "nat \<Rightarrow> nat \<Rightarrow> int" where
  "root_frac32 N p = \<lfloor>frac (root N (real p)) * 2 ^ 32\<rfloor>"

section \<open>Auxiliary definitions of the proofs\<close>

text \<open>
  The number of padding bits that \<open>getPadding\<close> returns for a message of \<open>n\<close> bytes; the
  divisors that decide primality below 361; the integer part of a small root and the
  integer inequalities that pin down the bits of its fractional part.
\<close>

definition pad_bits :: "nat \<Rightarrow> int" where
  "pad_bits n = (447 - int (n * 8)) mod 512"

definition small_divisors :: "nat list" where
  "small_divisors = [2..<19]"

definition small_root :: "nat \<Rightarrow> nat \<Rightarrow> nat" where
  "small_root N p =
     (if 6 ^ N \<le> p then 6 else if 5 ^ N \<le> p then 5 else if 4 ^ N \<le> p then 4
      else if 3 ^ N \<le> p then 3 else if 2 ^ N \<le> p then 2 else 1)"

definition root_check :: "nat \<Rightarrow> nat \<Rightarrow> nat \<Rightarrow> nat \<Rightarrow> bool" where
  "root_check N p n k \<longleftrightarrow>
     n ^ N \<le> p \<and> p < (n + 1) ^ N \<and>
     (n * 2 ^ 32 + k) ^ N \<le> p * (2 ^ 32) ^ N \<and> p * (2 ^ 32) ^ N < (n * 2 ^ 32 + k + 1) ^ N"

section \<open>Loops and the logical functions\<close>

lemmas K_table = K_def K_line1_def K_line2_def K_line3_def K_line4_def K_line5_def K_line6_def
  K_line7_def K_line8_def

lemma for_loop_Nil [simp]: "for_loop [] body s = Some s"
  by (simp add: for_loop_def)

lemma for_loop_snoc: "for_loop (ts @ [t]) body s = for_loop ts body s \<bind> body t"
  by (simp add: for_loop_def)

lemma fold_bind_None: "fold (\<lambda>t r. r \<bind> body t) ts None = None"
  by (induction ts) simp_all

lemma for_loop_Cons: "for_loop (t # ts) body s = body t s \<bind> for_loop ts body"
  by (cases "body t s") (simp_all add: for_loop_def fold_bind_None)

lemma for_loop_upt_Suc: "m \<le> n \<Longrightarrow> for_loop [m..<Suc n] body s = for_loop [m..<n] body s \<bind> body n"
  by (simp add: for_loop_snoc)

lemma capitalSigma_0_Some [simp]: "capitalSigma_0 x = Some (Sigma0_spec x)"
  by (simp add: capitalSigma_0_def Sigma0_spec_def ROTR_def ROTR_spec_def)

lemma capitalSigma_1_Some [simp]: "capitalSigma_1 x = Some (Sigma1_spec x)"
  by (simp add: capitalSigma_1_def Sigma1_spec_def ROTR_def ROTR_spec_def)

lemma lowercaseSigma0_Some [simp]: "lowercaseSigma0 x = Some (sigma0_spec x)"
  by (simp add: lowercaseSigma0_def sigma0_spec_def ROTR_def ROTR_spec_def SHR_def SHR_spec_def)

lemma lowercaseSigma1_Some [simp]: "lowercaseSigma1 x = Some (sigma1_spec x)"
  by (simp add: lowercaseSigma1_def sigma1_spec_def ROTR_def ROTR_spec_def SHR_def SHR_spec_def)


lemma schedule_copy_loop:
  "n \<le> length blk \<Longrightarrow>
   for_loop [0..<n] (schedule_copy blk) s =
     Some (s\<lparr>gW := (\<lambda>t. if t < n then blk ! t else gW s t)\<rparr>)"
proof (induction n)
  case 0
  then show ?case by simp
next
  case (Suc n)
  then show ?case
    by (auto simp: for_loop_snoc schedule_copy_def vec_at_def fun_eq_iff less_Suc_eq)
qed

lemma schedule_expand_loop:
  assumes "\<forall>t<16. gW s t = blk ! t"
  shows "for_loop [16..<16 + n] schedule_expand s =
     Some (s\<lparr>gW := (\<lambda>t. if t < 16 + n then schedule_spec blk t else gW s t)\<rparr>)"
proof (induction n)
  case 0
  have "(\<lambda>t. if t < 16 then schedule_spec blk t else gW s t) = gW s"
    using assms by (auto simp: fun_eq_iff schedule_spec.simps)
  then show ?case by simp
next
  case (Suc n)
  have "[16..<16 + Suc n] = [16..<16 + n] @ [16 + n]"
    by (metis add_Suc_right le_add1 upt_Suc_append)
  then show ?case
    using Suc
    by (auto simp: for_loop_snoc schedule_expand_def fun_eq_iff less_Suc_eq
        schedule_spec.simps [of blk "16 + n"])
qed



lemma round_step_spec:
  "t < 64 \<Longrightarrow> \<exists>s'. round_step t s = Some s' \<and> gW s' = gW s
      \<and> regs_of s' = round_spec (K ! t) (gW s t) (regs_of s)"
  by (simp add: round_step_def vec_at_def K_table regs_of_def round_spec_def Let_def)

lemma rounds_loop:
  assumes "\<forall>t<64. gW s t = schedule_spec blk t"
  shows "n \<le> 64 \<Longrightarrow> \<exists>s'. for_loop [0..<n] round_step s = Some s' \<and> gW s' = gW s
      \<and> regs_of s' = rounds_spec blk n (regs_of s)"
proof (induction n)
  case 0
  then show ?case by simp
next
  case (Suc n)
  then obtain s1 where s1: "for_loop [0..<n] round_step s = Some s1" "gW s1 = gW s"
      "regs_of s1 = rounds_spec blk n (regs_of s)"
    by auto
  from Suc.prems have "n < 64" by simp
  from round_step_spec [OF this, of s1] obtain s2 where
    s2: "round_step n s1 = Some s2" "gW s2 = gW s1"
      "regs_of s2 = round_spec (K ! n) (gW s1 n) (regs_of s1)"
    by blast
  show ?case
    using s1 s2 assms \<open>n < 64\<close> by (simp add: for_loop_snoc)
qed


lemma load_registers_spec:
  "8 \<le> length prev \<Longrightarrow> \<exists>s'. load_registers prev s = Some s' \<and> gW s' = gW s
     \<and> regs_of s' = (prev ! 0, prev ! 1, prev ! 2, prev ! 3, prev ! 4, prev ! 5, prev ! 6, prev ! 7)"
  by (auto simp: load_registers_def vec_at_def regs_of_def)

lemma intermediate_hash_spec:
  "8 \<le> length prev \<Longrightarrow> regs_of s = (a, b, c, d, e, f, g, h) \<Longrightarrow>
   intermediate_hash prev s =
     Some [a + prev ! 0, b + prev ! 1, c + prev ! 2, d + prev ! 3,
           e + prev ! 4, f + prev ! 5, g + prev ! 6, h + prev ! 7]"
  by (auto simp: intermediate_hash_def vec_at_def regs_of_def)

lemma length_compress_spec [simp]: "length (compress_spec H blk) = 8"
  by (simp add: compress_spec_def split: prod.splits)

lemma hash_block_spec:
  assumes i: "0 < i" "i \<le> length M" "i \<le> length Hash"
    and blk: "16 \<le> length (M ! (i - 1))"
    and prev: "8 \<le> length (Hash ! (i - 1))"
  shows "\<exists>s'. hash_block M i (Hash, s) =
     Some (Hash @ [compress_spec (Hash ! (i - 1)) (M ! (i - 1))], s')"
proof -
  define blk where "blk = M ! (i - 1)"
  define prev where "prev = Hash ! (i - 1)"
  have 1: "vec_at M (i - 1) = Some blk" "vec_at Hash (i - 1) = Some prev"
    using i by (simp_all add: vec_at_def blk_def prev_def)
  define s1 where "s1 = s\<lparr>gW := (\<lambda>t. if t < 16 then blk ! t else gW s t)\<rparr>"
  have 2: "for_loop [0..<16] (schedule_copy blk) s = Some s1"
    using schedule_copy_loop [of 16 blk s] blk by (simp add: blk_def s1_def)
  define s2 where "s2 = s1\<lparr>gW := (\<lambda>t. if t < 64 then schedule_spec blk t else gW s1 t)\<rparr>"
  have "\<forall>t<16. gW s1 t = blk ! t" by (simp add: s1_def)
  from schedule_expand_loop [OF this, of 48]
  have 3: "for_loop [16..<64] schedule_expand s1 = Some s2"
    by (simp add: s2_def)
  obtain s3 where 4: "load_registers prev s2 = Some s3" "gW s3 = gW s2"
    "regs_of s3 = (prev ! 0, prev ! 1, prev ! 2, prev ! 3, prev ! 4, prev ! 5, prev ! 6, prev ! 7)"
    using load_registers_spec [of prev s2] prev by (auto simp: prev_def)
  have "\<forall>t<64. gW s3 t = schedule_spec blk t"
    by (simp add: 4 s2_def)
  from rounds_loop [OF this, of 64]
  obtain s4 where 5: "for_loop [0..<64] round_step s3 = Some s4"
    "regs_of s4 = rounds_spec blk 64 (regs_of s3)"
    by auto
  obtain a b c d e f g h where r: "regs_of s4 = (a, b, c, d, e, f, g, h)"
    by (metis surj_pair)
  have 6: "intermediate_hash prev s4 = Some (compress_spec prev blk)"
    using intermediate_hash_spec [OF _ r, of prev] prev r 5 4
    by (simp add: prev_def compress_spec_def add.commute)
  show ?thesis
    unfolding hash_block_def blk_def [symmetric] prev_def [symmetric]
    by (simp only: prod.case 1 2 3 4 5 6 Option.bind.simps) blast
qed


lemma hash_chain_spec_snoc:
  "hash_chain_spec H (blks @ [blk]) =
     hash_chain_spec H blks @ [compress_spec (last (hash_chain_spec H blks)) blk]"
  by (induction blks arbitrary: H) (auto split: list.splits, (case_tac blks; simp)+)

lemma length_hash_chain_spec [simp]: "length (hash_chain_spec H blks) = Suc (length blks)"
  by (induction blks arbitrary: H) auto

lemma hash_chain_spec_rows:
  "length H = 8 \<Longrightarrow> i \<le> length blks \<Longrightarrow> length (hash_chain_spec H blks ! i) = 8"
proof (induction blks arbitrary: H i)
  case Nil
  then show ?case by simp
next
  case (Cons blk blks)
  then show ?case by (cases i) auto
qed

lemma hash_chain_spec_step:
  "i < length blks \<Longrightarrow>
   hash_chain_spec H blks ! Suc i = compress_spec (hash_chain_spec H blks ! i) (blks ! i)"
proof (induction blks arbitrary: H i)
  case Nil
  then show ?case by simp
next
  case (Cons blk blks)
  then show ?case by (cases i) (auto, (cases blks; simp))
qed


lemma getHash_loop:
  assumes blks: "\<forall>blk \<in> set M. 16 \<le> length blk"
  shows "n \<le> length M \<Longrightarrow>
     \<exists>s'. for_loop [1..<Suc n] (hash_block M) ([H0], s) = Some (hash_chain_spec H0 (take n M), s')"
proof (induction n)
  case 0
  then show ?case by simp
next
  case (Suc n)
  then obtain s1 where
    s1: "for_loop [1..<Suc n] (hash_block M) ([H0], s) = Some (hash_chain_spec H0 (take n M), s1)"
    by auto
  let ?Hash = "hash_chain_spec H0 (take n M)"
  from Suc.prems have n: "n < length M" by simp
  have len: "length ?Hash = Suc n" using n by simp
  have rows: "length (?Hash ! n) = 8"
    using n by (intro hash_chain_spec_rows) (simp_all add: H0_def)
  have "16 \<le> length (M ! n)" using blks n by simp
  with hash_block_spec [of "Suc n" M ?Hash s1] n len rows
  obtain s2 where
    s2: "hash_block M (Suc n) (?Hash, s1) = Some (?Hash @ [compress_spec (?Hash ! n) (M ! n)], s2)"
    by auto
  have "last ?Hash = ?Hash ! n"
    using len by (metis diff_Suc_1 last_conv_nth length_0_conv nat.distinct(1))
  then have "?Hash @ [compress_spec (?Hash ! n) (M ! n)] = hash_chain_spec H0 (take (Suc n) M)"
    using n by (simp add: take_Suc_conv_app_nth hash_chain_spec_snoc)
  with s1 s2 show ?case
    by (simp add: for_loop_snoc)
qed

lemma size_to_int_small: "n < 2 ^ 31 \<Longrightarrow> size_to_int n = int n"
  by (simp add: size_to_int_def signed_of_nat signed_take_bit_int_eq_self)

lemma getHash_spec:
  assumes "\<forall>blk \<in> set M. 16 \<le> length blk" and "length M < 2 ^ 31 - 1"
  shows "\<exists>s'. getHash s M = Some (hash_chain_spec H0 M, s')"
proof -
  have "size_to_int (length M) = int (length M)"
    using assms(2) by (intro size_to_int_small) simp
  moreover have "int (length M) \<noteq> INT_MAX"
    using assms(2) by (simp add: INT_MAX_def)
  ultimately show ?thesis
    using getHash_loop [OF assms(1), of "length M" s]
    by (simp add: getHash_def)
qed

section \<open>The logical functions against the specification\<close>

lemma unat_32_minus: "0 < unat n \<Longrightarrow> unat n < 32 \<Longrightarrow> unat (32 - n :: u32) = 32 - unat n"
  by (simp add: unat_sub word_le_nat_alt)

lemma ROTR_defined:
  "0 < unat n \<Longrightarrow> unat n < 32 \<Longrightarrow> ROTR n x = Some (ROTR_spec (unat n) x)"
  by (simp add: ROTR_def ROTR_spec_def unat_32_minus)

lemma ROTR_undefined:
  "unat n = 0 \<or> 32 \<le> unat n \<Longrightarrow> ROTR n x = None"
  by (auto simp: ROTR_def unat_eq_0)

lemma ROTR_spec_rotr: 
  assumes "n < 32" shows "ROTR_spec n x = word_rotr n x"
proof (rule bit_word_eqI)
  fix i assume "i < LENGTH(32)"
  then have i: "i < 32" by simp
  show "bit (ROTR_spec n x) i = bit (word_rotr n x) i"
  proof (cases "i + n < 32")
    case True
    then show ?thesis using i assms
      by (auto simp: ROTR_spec_def bit_or_iff bit_drop_bit_eq bit_push_bit_iff bit_word_rotr_iff add.commute)
  next
    case False
    then have "(i + n) mod 32 = i + n - 32" using i assms
      by (simp add: mod_if)
    moreover have "\<not> bit x (n + i)" using False
      by (auto dest: bit_imp_le_length)
    moreover have "i - (32 - n) = i + n - 32" using False assms by simp
    ultimately show ?thesis using i assms False
      by (auto simp: ROTR_spec_def bit_or_iff bit_drop_bit_eq bit_push_bit_iff bit_word_rotr_iff)
  qed
qed

lemma bit_Ch: "bit (Ch x y z) i = (if bit x i then bit y i else bit z i)"
  by (auto simp: Ch_def bit_simps dest: bit_imp_le_length)

lemma bit_Maj: "bit (Maj x y z) i = ((bit x i \<and> bit y i) \<or> (bit x i \<and> bit z i) \<or> (bit y i \<and> bit z i))"
  by (auto simp: Maj_def bit_simps)

lemma unat_SHR_spec: "unat (SHR_spec n x) = unat x div 2 ^ n"
  unfolding SHR_spec_def unat_drop_bit_eq by (rule drop_bit_eq_div)



text \<open>
  C6 (amended): each of the eight logical functions of the code equals the function of
  the specification where the C++ code is defined: \<open>SHR\<close> for every shift amount below
  the word width, \<open>ROTR\<close> for every rotation amount strictly between 0 and the word
  width, \<open>Ch\<close> and \<open>Maj\<close> for all words, and the four sigma functions for all words.
  At the rotation amount 0 and at a shift amount of 32 the code is undefined while the
  formula of the specification has a value.
\<close>

theorem primitives_equal_spec:
  "(unat n < 32 \<longrightarrow> SHR n x = Some (SHR_spec (unat n) x)) \<and>
   (0 < unat n \<and> unat n < 32 \<longrightarrow> ROTR n x = Some (ROTR_spec (unat n) x)) \<and>
   Ch x y z = Ch_spec x y z \<and>
   Maj x y z = Maj_spec x y z \<and>
   capitalSigma_0 x = Some (Sigma0_spec x) \<and>
   capitalSigma_1 x = Some (Sigma1_spec x) \<and>
   lowercaseSigma0 x = Some (sigma0_spec x) \<and>
   lowercaseSigma1 x = Some (sigma1_spec x)"
  by (simp add: SHR_def SHR_spec_def ROTR_defined Ch_def Ch_spec_def Maj_def Maj_spec_def)

theorem primitives_equal_spec_witness:
  "unat (7 :: u32) < 32 \<and> 0 < unat (7 :: u32) \<and>
   SHR 7 0x6a09e667 = Some 0x00d413cc \<and>
   ROTR 7 0x6a09e667 = Some 0xced413cc \<and>
   Ch 0x6a09e667 0xbb67ae85 0x3c6ef372 = 0x3e67b715 \<and>
   Maj 0x6a09e667 0xbb67ae85 0x3c6ef372 = 0x3a6fe667 \<and>
   capitalSigma_0 0x6a09e667 = Some 0xce20b47e \<and>
   capitalSigma_1 0x6a09e667 = Some 0x55b65510 \<and>
   lowercaseSigma0 0x6a09e667 = Some 0xba0cf582 \<and>
   lowercaseSigma1 0x6a09e667 = Some 0xcfe5da3c"
  using primitives_equal_spec [of 7 "0x6a09e667" "0xbb67ae85" "0x3c6ef372"]
  by (simp add: SHR_spec_def ROTR_spec_def Ch_spec_def Maj_spec_def Sigma0_spec_def
      Sigma1_spec_def sigma0_spec_def sigma1_spec_def)

theorem primitives_undefined_counterexample:
  "ROTR 0 1 = None \<and> ROTR_spec (unat (0 :: u32)) 1 = 1 \<and>
   SHR 32 1 = None \<and> SHR_spec (unat (32 :: u32)) 1 = 0"
  by (simp add: ROTR_def ROTR_spec_def SHR_def SHR_spec_def)

section \<open>Evaluation of the compression function\<close>

lemma word_of_nat_mod32: "(word_of_nat (n mod 4294967296) :: u32) = word_of_nat n"
  by (simp add: word_of_nat_eq_iff take_bit_eq_mod)

lemma norm32_numeral: "norm32 (numeral k) = word_of_nat (numeral k mod 4294967296)"
  using word_of_nat_mod32 [of "numeral k"] by (simp only: norm32_def of_nat_numeral)

lemma norm32_0: "norm32 0 = 0" and norm32_1: "norm32 1 = 1"
  by (simp_all add: norm32_def)

lemmas norm32_eval = norm32_numeral norm32_0 norm32_1

lemma schedule_spec_prefix:
  "length blk = 16 \<Longrightarrow> map (schedule_spec blk) [0..<16] = blk"
  by (rule nth_equalityI) (simp_all add: schedule_spec.simps)

lemma fold_sched_step:
  assumes "length blk = 16"
  shows "fold sched_step [16..<16 + n] blk = map (schedule_spec blk) [0..<16 + n]"
proof (induction n)
  case 0
  then show ?case using assms by (simp add: schedule_spec_prefix)
next
  case (Suc n)
  have "[16..<16 + Suc n] = [16..<16 + n] @ [16 + n]"
    by (metis add_Suc_right le_add1 upt_Suc_append)
  moreover have "[0..<16 + Suc n] = [0..<16 + n] @ [16 + n]"
    by (metis add_Suc_right le0 upt_Suc_append)
  ultimately show ?case
    using Suc
    by (simp add: sched_step_def norm32_def schedule_spec.simps [of blk "16 + n"] nth_append)
qed

lemma length_K: "length K = 64"
  by (simp add: K_table)

lemma fold_round_eval:
  "n \<le> 64 \<Longrightarrow>
   fold round_eval (take n (zip K (map (schedule_spec blk) [0..<64]))) r = rounds_spec blk n r"
proof (induction n)
  case 0
  then show ?case by simp
next
  case (Suc n)
  then have "n < 64" by simp
  then have "take (Suc n) (zip K (map (schedule_spec blk) [0..<64]))
      = take n (zip K (map (schedule_spec blk) [0..<64])) @ [(K ! n, schedule_spec blk n)]"
    by (simp add: take_Suc_conv_app_nth length_K)
  moreover have "round_eval (k, w) r' = round_spec k w r'" for k w r'
    by (simp add: round_eval_def round_spec_def norm32_def split: prod.splits)
  ultimately show ?case
    using Suc by simp
qed

lemma compress_spec_eval: "length blk = 16 \<Longrightarrow> compress_spec H blk = compress_eval H blk"
  using fold_sched_step [of blk 48] fold_round_eval [of 64 blk]
  by (simp add: compress_spec_def compress_eval_def norm32_def length_K)

lemmas sha_eval = sched_step_def sigma0_spec_def sigma1_spec_def ROTR_spec_def
  SHR_spec_def norm32_eval K_table round_eval_def Sigma0_spec_def Sigma1_spec_def Ch_def Maj_def
  compress_eval_def

lemma compress_empty:
  "compress_spec H0 [0x80000000, 0, 0, 0, 0, 0, 0, 0, 0, 0, 0, 0, 0, 0, 0, 0] =
     [0xe3b0c442, 0x98fc1c14, 0x9afbf4c8, 0x996fb924, 0x27ae41e4, 0x649b934c, 0xa495991b, 0x7852b855]"
  by (simp add: compress_spec_eval) (simp add: sha_eval H0_def)

lemma compress_abc:
  "compress_spec H0 [0x61626380, 0, 0, 0, 0, 0, 0, 0, 0, 0, 0, 0, 0, 0, 0, 0x18] =
     [0xba7816bf, 0x8f01cfea, 0x414140de, 0x5dae2223, 0xb00361a3, 0x96177a9c, 0xb410ff61, 0xf20015ad]"
  by (simp add: compress_spec_eval) (simp add: sha_eval H0_def)

section \<open>Padding\<close>

declare getPadding_loop.simps [simp del]

lemma c_rem_nonneg: "0 \<le> x \<Longrightarrow> 0 < y \<Longrightarrow> c_rem x y = x mod y"
  by (cases "x = 0") (simp_all add: c_rem_def)

lemma c_rem_nonpos: "x \<le> 0 \<Longrightarrow> 0 < y \<Longrightarrow> c_rem x y \<le> 0"
  by (cases "x = 0") (simp_all add: c_rem_def)

lemma getPadding_loop_least:
  "0 \<le> len + 1 + k \<Longrightarrow> (len + 1 + k + int n) mod 512 = 448 \<Longrightarrow>
   \<forall>j<n. (len + 1 + k + int j) mod 512 \<noteq> 448 \<Longrightarrow>
   len + 1 + k + int n \<le> LLONG_MAX \<Longrightarrow> k + int n \<le> INT_MAX \<Longrightarrow> 0 \<le> k \<Longrightarrow>
   getPadding_loop len k = Some (k + int n)"
proof (induction n arbitrary: k)
  case 0
  then show ?case
    by (subst getPadding_loop.simps) (simp add: c_rem_nonneg)
next
  case (Suc n)
  have ne: "(len + 1 + k) mod 512 \<noteq> 448"
    using Suc.prems(3) [rule_format, of 0] by simp
  have "\<forall>j<n. (len + 1 + (k + 1) + int j) mod 512 \<noteq> 448"
  proof (intro allI impI)
    fix j assume "j < n"
    then have "(len + 1 + k + int (Suc j)) mod 512 \<noteq> 448"
      using Suc.prems(3) [rule_format, of "Suc j"] by simp
    then show "(len + 1 + (k + 1) + int j) mod 512 \<noteq> 448"
      by (simp add: algebra_simps)
  qed
  then have "getPadding_loop len (k + 1) = Some (k + 1 + int n)"
    using Suc.prems by (intro Suc.IH) (simp_all add: algebra_simps)
  with Suc.prems ne show ?case
    by (subst getPadding_loop.simps) (simp add: c_rem_nonneg)
qed

lemma next_448:
  fixes x :: int
  defines "d \<equiv> (448 - x) mod 512"
  shows "(x + d) mod 512 = 448" and "0 \<le> j \<Longrightarrow> j < d \<Longrightarrow> (x + j) mod 512 \<noteq> 448"
    and "T mod 512 = 448 \<Longrightarrow> x \<le> T \<Longrightarrow> x + d \<le> T"
proof -
  have "(x + d) mod 512 = (x + (448 - x)) mod 512"
    unfolding d_def by (rule mod_add_right_eq)
  then show "(x + d) mod 512 = 448" by simp
next
  assume j: "0 \<le> j" "j < d"
  have "d < 512" by (simp add: d_def)
  show "(x + j) mod 512 \<noteq> 448"
  proof
    assume "(x + j) mod 512 = 448"
    then have "d = ((x + j) mod 512 - x) mod 512" by (simp add: d_def)
    also have "\<dots> = (x + j - x) mod 512" by (rule mod_diff_left_eq)
    also have "\<dots> = j" using j \<open>d < 512\<close> by simp
    finally show False using j by simp
  qed
next
  assume T: "T mod 512 = 448" "x \<le> T"
  have "d = (T mod 512 - x) mod 512" by (simp add: d_def T)
  also have "\<dots> = (T - x) mod 512" by (rule mod_diff_left_eq)
  also have "\<dots> \<le> T - x" using T by (intro zmod_le_nonneg_dividend) simp
  finally show "x + d \<le> T" by simp
qed

lemma getPadding_nonneg:
  assumes "0 \<le> len" "len \<le> LLONG_MAX - 64"
  shows "getPadding len = Some ((447 - len) mod 512)"
proof -
  define d where "d = (448 - (len + 1)) mod 512"
  have d: "0 \<le> d" "d < 512" by (simp_all add: d_def)
  have "len + 1 + d \<le> LLONG_MAX - 63"
    using assms unfolding d_def by (intro next_448(3)) (simp_all add: LLONG_MAX_def)
  then have 1: "len + 1 + 0 + int (nat d) \<le> LLONG_MAX" using d by simp
  have 2: "(len + 1 + 0 + int (nat d)) mod 512 = 448"
    using next_448(1) [of "len + 1"] d by (simp add: d_def)
  have 3: "\<forall>j<nat d. (len + 1 + 0 + int j) mod 512 \<noteq> 448"
    using next_448(2) [of _ "len + 1"] by (simp add: d_def)
  have "getPadding_loop len 0 = Some (0 + int (nat d))"
    using assms d by (intro getPadding_loop_least 1 2 3) (simp_all add: INT_MAX_def)
  then show ?thesis using d by (simp add: getPadding_def d_def)
qed

lemma be_value_be_bytes: "be_value (be_bytes n L) = L mod 256 ^ n"
proof (induction n arbitrary: L)
  case 0
  then show ?case by (simp add: be_value_def)
next
  case (Suc n)
  have "unat (word_of_nat L :: u8) = L mod 256"
    by (simp add: unat_of_nat)
  then have "be_value (be_bytes (Suc n) L) = 256 * ((L div 256) mod 256 ^ n) + L mod 256"
    using Suc [of "L div 256"] by (simp add: be_value_def)
  also have "\<dots> = L mod 256 ^ Suc n"
    by (simp add: mod_mult2_eq)
  finally show ?case .
qed

lemma is_padded_length_least:
  assumes "is_padded_length L P" "512 dvd P'" "L + 65 \<le> P'"
  shows "P \<le> P'"
proof (rule ccontr)
  assume "\<not> P \<le> P'"
  then have "P' < P" by simp
  from assms(1,2) obtain a b where ab: "P = 512 * a" "P' = 512 * b"
    by (auto simp: is_padded_length_def dvd_def)
  with \<open>P' < P\<close> have "b < a" by simp
  then have "512 * b + 512 \<le> 512 * a" by simp
  with ab assms show False by (simp add: is_padded_length_def)
qed

lemma size_to_llong_small: "n < 2 ^ 63 \<Longrightarrow> size_to_llong n = int n"
  by (simp add: size_to_llong_def signed_of_nat signed_take_bit_int_eq_self)

lemma fold_snoc_map: "fold (\<lambda>i M. M @ [f i]) xs M = M @ map f xs"
  by (induction xs arbitrary: M) simp_all

lemma upt_1_9: "[1..<9] = [1, 2, 3, 4, 5, 6, 7, 8]"
  by (simp add: upt_rec)

lemma be_bytes_8:
  "be_bytes 8 L =
     [word_of_nat (L div 2 ^ 56), word_of_nat (L div 2 ^ 48), word_of_nat (L div 2 ^ 40),
      word_of_nat (L div 2 ^ 32), word_of_nat (L div 2 ^ 24), word_of_nat (L div 2 ^ 16),
      word_of_nat (L div 2 ^ 8), word_of_nat L]"
proof -
  have "be_bytes (Suc (Suc (Suc (Suc (Suc (Suc (Suc (Suc 0)))))))) L =
     [word_of_nat (L div 2 ^ 56), word_of_nat (L div 2 ^ 48), word_of_nat (L div 2 ^ 40),
      word_of_nat (L div 2 ^ 32), word_of_nat (L div 2 ^ 24), word_of_nat (L div 2 ^ 16),
      word_of_nat (L div 2 ^ 8), word_of_nat L]"
    by (simp add: div_mult2_eq [symmetric])
  moreover have "(8 :: nat) = Suc (Suc (Suc (Suc (Suc (Suc (Suc (Suc 0)))))))"
    by simp
  ultimately show ?thesis by (simp only:)
qed

lemma length_field:
  "map (\<lambda>i. word_of_int (drop_bit (64 - i * 8) (int L)) :: u8) [1..<9] = be_bytes 8 L"
proof -
  have "int L div 2 ^ n = int (L div 2 ^ n)" for n
    by (simp add: zdiv_int)
  then have "(word_of_int (int L div 2 ^ n) :: u8) = word_of_nat (L div 2 ^ n)" for n
    by (simp only: of_int_of_nat_eq)
  then show ?thesis
    unfolding be_bytes_8 upt_1_9 drop_bit_eq_div by simp
qed

lemma pad_mod8:
  fixes L :: int
  assumes "L mod 8 = 0"
  shows "(447 - L) mod 512 mod 8 = 7"
proof -
  have "(447 - L) mod 512 mod 8 = (447 - L) mod 8"
    by (rule mod_mod_cancel) simp
  also have "\<dots> = (447 - L mod 8) mod 8" by (rule mod_diff_right_eq [symmetric])
  finally show ?thesis by (simp add: assms)
qed

lemma pad_ge7:
  fixes L :: int
  assumes "L mod 8 = 0"
  shows "7 \<le> (447 - L) mod 512"
proof -
  have "(447 - L) mod 512 mod 8 \<le> (447 - L) mod 512"
    by (intro zmod_le_nonneg_dividend) simp
  then show ?thesis by (simp add: pad_mod8 assms)
qed

lemma pad_exact:
  fixes L :: int
  assumes "L mod 8 = 0"
  shows "8 * (((447 - L) mod 512 - 7) div 8) = (447 - L) mod 512 - 7"
proof -
  have "((447 - L) mod 512 - 7) mod 8 = 0"
    using mod_diff_left_eq [of "(447 - L) mod 512" 8 7] by (simp add: pad_mod8 assms)
  then show ?thesis by (simp add: mod_eq_0_iff_dvd)
qed

lemma pad_bits_range: "0 \<le> pad_bits n" "pad_bits n < 512"
  by (simp_all add: pad_bits_def)

lemma pad_bits_ge7: "7 \<le> pad_bits n"
  unfolding pad_bits_def by (rule pad_ge7) simp

lemma mod_512_split:
  fixes a :: int
  shows "(8 * a + 7) mod 512 = 8 * (a mod 64) + 7"
proof -
  have "(8 * a + 7) mod (8 * 64) = 8 * ((8 * a + 7) div 8 mod 64) + (8 * a + 7) mod 8"
    by (rule zmod_zmult2_eq) simp
  moreover have "(8 * a + 7) div 8 = a" by simp
  moreover have "(8 * a + 7) mod 8 = 7" by simp
  ultimately show ?thesis by simp
qed

lemma pad_bits_zero_bytes: "pad_bits n = 8 * int (zero_bytes_spec n) + 7"
proof -
  have "447 - int (n * 8) = 8 * (55 - int n) + 7" by simp
  then have "pad_bits n = (8 * (55 - int n) + 7) mod 512"
    by (simp only: pad_bits_def)
  also have "\<dots> = 8 * ((55 - int n) mod 64) + 7"
    by (rule mod_512_split)
  finally show ?thesis
    by (simp add: zero_bytes_spec_def)
qed

lemma zero_bytes_div: "nat ((pad_bits n - 7) div 8) = zero_bytes_spec n"
  by (simp add: pad_bits_zero_bytes)

lemma c_div_nonneg: "0 \<le> x \<Longrightarrow> 0 < y \<Longrightarrow> c_div x y = x div y"
  by (cases "x = 0") (simp_all add: c_div_def)

lemma paddingMessage_value:
  assumes "length M * 8 + 72 \<le> 2 ^ 63"
  shows "paddingMessage M =
     Some (M @ [0x80] @ replicate (zero_bytes_spec (length M)) 0 @ be_bytes 8 (length M * 8))"
proof -
  let ?L = "length M * 8"
  have L: "size_to_llong ?L = int ?L"
    using assms by (intro size_to_llong_small) simp
  have "int ?L \<le> LLONG_MAX - 64"
    using assms by (simp add: LLONG_MAX_def)
  then have k: "getPadding (int ?L) = Some (pad_bits (length M))"
    unfolding pad_bits_def by (intro getPadding_nonneg) simp_all
  have z: "c_div (pad_bits (length M) - 7) 8 = (pad_bits (length M) - 7) div 8"
    using pad_bits_ge7 [of "length M"] by (intro c_div_nonneg) simp_all
  have zeros: "map (\<lambda>i. 0 :: u8) [0..<z] = replicate z 0" for z
    by (simp add: map_replicate_const)
  show ?thesis
    unfolding paddingMessage_def L k
    by (simp only: Option.bind.simps Let_def z zeros fold_snoc_map length_field append_assoc
        zero_bytes_div)
qed

lemma getPadding_loop_skip:
  "0 \<le> k \<Longrightarrow> len + 1 + k + int n \<le> 0 \<Longrightarrow> k + int n \<le> INT_MAX \<Longrightarrow>
   getPadding_loop len k = getPadding_loop len (k + int n)"
proof (induction n arbitrary: k)
  case 0
  then show ?case by simp
next
  case (Suc n)
  then have neg: "len + 1 + k \<le> 0" by simp
  then have "c_rem (len + 1 + k) 512 \<le> 0" by (intro c_rem_nonpos) simp_all
  then have ne: "c_rem (len + 1 + k) 512 \<noteq> 448" by simp
  have "getPadding_loop len (k + 1) = getPadding_loop len (k + 1 + int n)"
    using Suc.prems by (intro Suc.IH) simp_all
  with Suc.prems neg ne show ?case
    by (subst getPadding_loop.simps) (simp add: LLONG_MAX_def add.assoc)
qed

lemma getPadding_negative:
  assumes "len < 0" "447 - len \<le> INT_MAX"
  shows "getPadding len = Some (447 - len)"
proof -
  have "getPadding_loop len 0 = getPadding_loop len (0 + int (nat (- len - 1)))"
    using assms by (intro getPadding_loop_skip) simp_all
  also have "\<dots> = getPadding_loop len (- len - 1)"
    using assms by simp
  also have "\<dots> = Some (- len - 1 + int 448)"
    using assms by (intro getPadding_loop_least) (simp_all add: LLONG_MAX_def)
  finally show ?thesis by (simp add: getPadding_def)
qed

text \<open>
  C10 (amended): for every bit length \<open>L\<close> from 0 to \<open>LLONG_MAX - 64\<close>, the loop of
  \<open>getPadding\<close> ends and returns \<open>(447 - L) mod 512\<close>, which is the least \<open>k \<ge> 0\<close> with
  \<open>(L + 1 + k) mod 512 = 448\<close> and is below 512; and when \<open>L\<close> is a multiple of 8, then
  \<open>k \<ge> 7\<close> and \<open>k mod 8 = 7\<close>, so \<open>k - 7\<close> is not negative and the division \<open>(k - 7) / 8\<close>
  of \<open>paddingMessage\<close> leaves no remainder.
\<close>

theorem getPadding_least:
  assumes "0 \<le> L" and "L \<le> LLONG_MAX - 64"
  shows "getPadding L = Some ((447 - L) mod 512) \<and>
     0 \<le> (447 - L) mod 512 \<and> (447 - L) mod 512 < 512 \<and>
     (L + 1 + (447 - L) mod 512) mod 512 = 448 \<and>
     (0 \<le> j \<and> j < (447 - L) mod 512 \<longrightarrow> (L + 1 + j) mod 512 \<noteq> 448) \<and>
     (L mod 8 = 0 \<longrightarrow>
        7 \<le> (447 - L) mod 512 \<and> (447 - L) mod 512 mod 8 = 7 \<and>
        c_rem ((447 - L) mod 512 - 7) 8 = 0 \<and>
        8 * c_div ((447 - L) mod 512 - 7) 8 = (447 - L) mod 512 - 7)"
proof -
  have k: "(447 - L) mod 512 = (448 - (L + 1)) mod 512" by simp
  have 1: "(L + 1 + (447 - L) mod 512) mod 512 = 448"
    unfolding k by (rule next_448(1))
  have 2: "(L + 1 + j) mod 512 \<noteq> 448" if "0 \<le> j" "j < (447 - L) mod 512"
    using that unfolding k by (intro next_448(2))
  have 3: "c_rem ((447 - L) mod 512 - 7) 8 = 0 \<and>
      8 * c_div ((447 - L) mod 512 - 7) 8 = (447 - L) mod 512 - 7" if "L mod 8 = 0"
  proof -
    have "0 \<le> (447 - L) mod 512 - 7" using pad_ge7 [OF that] by simp
    then have "c_rem ((447 - L) mod 512 - 7) 8 = ((447 - L) mod 512 - 7) mod 8"
      and "c_div ((447 - L) mod 512 - 7) 8 = ((447 - L) mod 512 - 7) div 8"
      by (simp_all add: c_rem_nonneg c_div_nonneg)
    moreover have "((447 - L) mod 512 - 7) mod 8 = 0"
      using mod_diff_left_eq [of "(447 - L) mod 512" 8 7] by (simp add: pad_mod8 that)
    ultimately show ?thesis using pad_exact [OF that] by simp
  qed
  show ?thesis
    using getPadding_nonneg [OF assms] 1 2 3 pad_ge7 [of L] pad_mod8 [of L] by simp
qed

theorem getPadding_least_witness:
  "(0 :: int) \<le> 24 \<and> 24 \<le> LLONG_MAX - 64 \<and> getPadding 24 = Some 423 \<and>
   (0 :: int) \<le> 5 \<and> (5 :: int) < 423 \<and> (24 + 1 + 5) mod 512 \<noteq> (448 :: int) \<and>
   (24 :: int) mod 8 = 0 \<and> c_rem (423 - 7) 8 = 0 \<and> 8 * c_div (423 - 7) 8 = 423 - 7"
proof -
  have h: "(0 :: int) \<le> 24" "24 \<le> LLONG_MAX - 64"
    by (simp_all add: LLONG_MAX_def)
  show ?thesis
    using h getPadding_least [OF h, of 5] by simp
qed

theorem getPadding_overflow_counterexample:
  "getPadding 9223372036854775800 = None"
  by (simp add: getPadding_def getPadding_loop.simps LLONG_MAX_def INT_MAX_def c_rem_def)

lemma int_mod_448: "int a mod 512 = 448 \<longleftrightarrow> a mod 512 = 448"
proof -
  have "int a mod 512 = int (a mod 512)" by (simp add: zmod_int)
  then show ?thesis by simp
qed

lemma zero_bytes_spec_least:
  "((n + 1 + zero_bytes_spec n) * 8) mod 512 = 448"
  "z < zero_bytes_spec n \<Longrightarrow> ((n + 1 + z) * 8) mod 512 \<noteq> 448"
proof -
  let ?L = "int (n * 8)"
  have k: "pad_bits n = (448 - (?L + 1)) mod 512" by (simp add: pad_bits_def)
  have "(?L + 1 + pad_bits n) mod 512 = 448"
    unfolding k by (rule next_448(1))
  moreover have "?L + 1 + pad_bits n = int ((n + 1 + zero_bytes_spec n) * 8)"
    by (simp add: pad_bits_zero_bytes)
  ultimately show "((n + 1 + zero_bytes_spec n) * 8) mod 512 = 448"
    by (simp only: int_mod_448)
next
  assume z: "z < zero_bytes_spec n"
  let ?L = "int (n * 8)"
  have k: "pad_bits n = (448 - (?L + 1)) mod 512" by (simp add: pad_bits_def)
  have "int (8 * z + 7) < pad_bits n"
    using z by (simp add: pad_bits_zero_bytes)
  then have ne: "(?L + 1 + int (8 * z + 7)) mod 512 \<noteq> 448"
    unfolding k by (intro next_448(2)) simp_all
  have eq: "?L + 1 + int (8 * z + 7) = int ((n + 1 + z) * 8)"
    by simp
  show "((n + 1 + z) * 8) mod 512 \<noteq> 448"
    using ne unfolding eq int_mod_448 .
qed

lemma zero_bytes_spec_less: "zero_bytes_spec n < 64"
  by (simp add: zero_bytes_spec_def nat_less_iff)

lemma padded_length_spec:
  "is_padded_length (n * 8) ((n + 1 + zero_bytes_spec n + 8) * 8)"
proof -
  have "((n + 1 + zero_bytes_spec n) * 8 + 64) mod 512 = (448 + 64) mod 512"
    using zero_bytes_spec_least(1) [of n] by (metis mod_add_left_eq)
  then have "512 dvd (n + 1 + zero_bytes_spec n + 8) * 8"
    by (simp add: algebra_simps mod_eq_0_iff_dvd)
  then show ?thesis
    using zero_bytes_spec_less [of n] by (simp add: is_padded_length_def)
qed

text \<open>
  C3 (amended): for every byte sequence of bit length \<open>L \<le> 2^63 - 72\<close>, \<open>paddingMessage\<close>
  returns the bytes, then \<open>0x80\<close>, then \<open>zero_bytes_spec\<close> zero bytes, which is the least
  number that brings the bit length to 448 modulo 512, then \<open>L\<close> in 8 bytes, big-endian;
  the bit length of the result is the multiple of 512 in \<open>[L + 65, L + 65 + 512)\<close>, that
  is the smallest multiple of 512 that is at least \<open>L + 1 + 64\<close>.
\<close>

theorem paddingMessage_spec:
  assumes "length M * 8 + 72 \<le> 2 ^ 63"
  shows "paddingMessage M =
       Some (M @ [0x80] @ replicate (zero_bytes_spec (length M)) 0 @ be_bytes 8 (length M * 8)) \<and>
     ((length M + 1 + zero_bytes_spec (length M)) * 8) mod 512 = 448 \<and>
     (z < zero_bytes_spec (length M) \<longrightarrow> ((length M + 1 + z) * 8) mod 512 \<noteq> 448) \<and>
     length (be_bytes 8 (length M * 8)) = 8 \<and>
     be_value (be_bytes 8 (length M * 8)) = length M * 8 \<and>
     is_padded_length (length M * 8) ((length M + 1 + zero_bytes_spec (length M) + 8) * 8) \<and>
     (512 dvd P \<and> length M * 8 + 65 \<le> P \<longrightarrow>
        (length M + 1 + zero_bytes_spec (length M) + 8) * 8 \<le> P)"
proof -
  have "length M * 8 < 256 ^ 8" using assms by simp
  then have "be_value (be_bytes 8 (length M * 8)) = length M * 8"
    by (simp only: be_value_be_bytes mod_less)
  moreover have "length (be_bytes 8 (length M * 8)) = 8"
    by (simp add: be_bytes_8)
  ultimately show ?thesis
    using paddingMessage_value [OF assms] zero_bytes_spec_least(1) [of "length M"]
      zero_bytes_spec_least(2) [of z "length M"] padded_length_spec [of "length M"]
      is_padded_length_least [OF padded_length_spec, of P "length M"]
    by simp
qed

theorem paddingMessage_spec_witness:
  "length [0x61, 0x62, 0x63 :: u8] * 8 + 72 \<le> (2 :: nat) ^ 63 \<and>
   paddingMessage [0x61, 0x62, 0x63] =
     Some ([0x61, 0x62, 0x63, 0x80] @ replicate 52 0 @ [0, 0, 0, 0, 0, 0, 0, 0x18]) \<and>
   (3 :: nat) < 52 \<and> ((3 + 1 + 3) * 8) mod 512 \<noteq> (448 :: nat) \<and>
   (512 :: nat) dvd 1024 \<and> (3 * 8 + 65 :: nat) \<le> 1024 \<and> ((3 + 1 + 52 + 8) * 8 :: nat) \<le> 1024"
proof -
  have h: "length [0x61, 0x62, 0x63 :: u8] * 8 + 72 \<le> (2 :: nat) ^ 63"
    by simp
  have z: "zero_bytes_spec (length [0x61, 0x62, 0x63 :: u8]) = 52"
    by (simp add: zero_bytes_spec_def)
  show ?thesis
    using paddingMessage_spec [OF h, of 3 1024] unfolding z
    by (simp add: be_bytes_8)
qed

lemma size_to_llong_wrap: "size_to_llong (2305843009213693824 * 8) = - 1024"
  by (simp add: size_to_llong_def)

lemma paddingMessage_huge:
  assumes "length M = 2305843009213693824"
  shows "map_option length (paddingMessage M) = Some 2305843009213694016"
proof -
  have k: "getPadding (- 1024) = Some 1471"
    using getPadding_negative [of "- 1024"] by (simp add: INT_MAX_def)
  have z: "nat (c_div (1471 - 7) 8) = 183"
    by (simp add: c_div_def)
  show ?thesis
    unfolding paddingMessage_def assms size_to_llong_wrap k
    by (simp only: Option.bind.simps Let_def z fold_snoc_map option.map length_append length_map
        length_upt assms list.size) simp
qed

theorem paddingMessage_wrap_counterexample:
  "map_option (\<lambda>P. is_padded_length (length (replicate 2305843009213693824 (0 :: u8)) * 8) (length P * 8))
     (paddingMessage (replicate 2305843009213693824 0)) = Some False"
proof -
  have "length (replicate 2305843009213693824 (0 :: u8)) = 2305843009213693824"
    by (rule length_replicate)
  from paddingMessage_huge [OF this]
  obtain P where P: "paddingMessage (replicate 2305843009213693824 0) = Some P"
    "length P = 2305843009213694016"
    by auto
  show ?thesis
    unfolding P length_replicate by (simp add: is_padded_length_def P)
qed

section \<open>Parsing\<close>

lemma upt_0_4: "[0..<4] = [0, 1, 2, 3]"
  by (simp add: upt_rec)

lemma or_byte: "push_bit 8 (w :: u32) OR ucast (b :: u8) = push_bit 8 w + ucast b"
proof -
  have "push_bit 8 w AND (ucast b :: u32) = 0"
    by (rule bit_word_eqI) (auto simp: bit_simps dest: bit_imp_le_length)
  then show ?thesis
    by (rule disjunctive_add_eq_or [symmetric])
qed

lemma ucast_u8_u32: "(ucast (b :: u8) :: u32) = word_of_nat (unat b)"
  by simp

lemma assemble_word:
  "push_bit 8 (push_bit 8 (push_bit 8 (push_bit 8 (0 :: u32) OR ucast b0) OR ucast b1) OR ucast b2)
     OR ucast b3 = be32_spec b0 b1 b2 b3"
  unfolding or_byte by (simp add: be32_spec_def push_bit_eq_mult algebra_simps)

lemma parse_byte_step:
  "m < length bytes \<Longrightarrow>
   parse_byte bytes k (w, int m) =
     (if int m < INT_MAX then Some (push_bit 8 w OR ucast (bytes ! m), int m + 1) else None)"
  by (simp add: parse_byte_def vec_at_def)

lemma parse_word_step:
  assumes "m + 4 \<le> length bytes"
  shows "parse_word bytes j (block, int m) =
     (if int m + 4 \<le> INT_MAX then Some (block[j := word_at bytes m], int m + 4) else None)"
proof -
  have steps: "parse_byte bytes k (w, int m + int d) =
      (if int m + int d < INT_MAX
       then Some (push_bit 8 w OR ucast (bytes ! (m + d)), int m + int d + 1) else None)"
    if "d < 4" for k w d
    using parse_byte_step [of "m + d" bytes k w] assms that by simp
  show ?thesis
    unfolding parse_word_def upt_0_4
    using steps [of 0] steps [of 1] steps [of 2] steps [of 3]
    by (simp add: for_loop_Cons word_at_def assemble_word [symmetric] add.assoc)
qed

lemma map_upt_update:
  "c < n \<Longrightarrow> (map f [0..<n])[c := v] = map (\<lambda>j. if j = c then v else f j) [0..<n]"
  by (rule nth_equalityI) (simp_all add: nth_list_update)

lemma parse_words_loop:
  assumes "length blk = 16" and "int i \<le> INT_MAX"
  shows "c \<le> 16 \<Longrightarrow> i + 4 * c \<le> length bytes \<Longrightarrow>
     for_loop [0..<c] (parse_word bytes) (blk, int i) =
       (if int (i + 4 * c) \<le> INT_MAX
        then Some (map (\<lambda>j. if j < c then word_at bytes (i + 4 * j) else blk ! j) [0..<16],
                   int (i + 4 * c))
        else None)"
proof (induction c)
  case 0
  have "map ((!) blk) [0..<16] = blk"
    using assms map_nth [of blk] by simp
  then show ?case using assms by simp
next
  case (Suc c)
  let ?blk = "map (\<lambda>j. if j < c then word_at bytes (i + 4 * j) else blk ! j) [0..<16]"
  have IH: "for_loop [0..<c] (parse_word bytes) (blk, int i) =
       (if int (i + 4 * c) \<le> INT_MAX then Some (?blk, int (i + 4 * c)) else None)"
    using Suc by simp
  have step: "parse_word bytes c (?blk, int (i + 4 * c)) =
     (if int (i + 4 * c) + 4 \<le> INT_MAX
      then Some (?blk[c := word_at bytes (i + 4 * c)], int (i + 4 * c) + 4) else None)"
    using Suc.prems by (intro parse_word_step) simp
  have upd: "?blk[c := word_at bytes (i + 4 * c)] =
      map (\<lambda>j. if j < Suc c then word_at bytes (i + 4 * j) else blk ! j) [0..<16]"
    using Suc.prems by (simp add: map_upt_update less_Suc_eq cong: if_cong)
  have eq: "int (i + 4 * Suc c) = int (i + 4 * c) + 4" by simp
  show ?case
  proof (cases "int (i + 4 * c) \<le> INT_MAX")
    case True
    then show ?thesis
      unfolding for_loop_upt_Suc [OF le0] IH eq
      by (simp only: if_True Option.bind.simps step upd)
  next
    case False
    then have "\<not> int (i + 4 * c) + 4 \<le> INT_MAX" by simp
    with False show ?thesis
      unfolding for_loop_upt_Suc [OF le0] IH eq
      by (simp only: if_False Option.bind.simps)
  qed
qed

lemma parse_block_step:
  assumes "64 * n + 64 \<le> length bytes" and "int (64 * n) \<le> INT_MAX"
  shows "parse_block bytes n (M, int (64 * n)) =
     (if int (64 * Suc n) \<le> INT_MAX then Some (M @ [block_at bytes n], int (64 * Suc n))
      else None)"
proof -
  have "map (\<lambda>j. if j < 16 then word_at bytes (64 * n + 4 * j) else replicate 16 0 ! j) [0..<16]
      = block_at bytes n"
    unfolding block_at_def by (rule map_cong) simp_all
  moreover have "64 * n + 4 * 16 = 64 * Suc n" by simp
  ultimately have "for_loop [0..<16] (parse_word bytes) (replicate 16 0, int (64 * n)) =
     (if int (64 * Suc n) \<le> INT_MAX then Some (block_at bytes n, int (64 * Suc n)) else None)"
    using parse_words_loop [of "replicate 16 0" "64 * n" 16 bytes] assms
    by (simp only: length_replicate le_refl)
  then show ?thesis
    by (simp add: parse_block_def)
qed

lemma parse_blocks_loop:
  "64 * n \<le> length bytes \<Longrightarrow>
   for_loop [0..<n] (parse_block bytes) ([], 0) =
     (if int (64 * n) \<le> INT_MAX then Some (map (block_at bytes) [0..<n], int (64 * n))
      else None)"
proof (induction n)
  case 0
  then show ?case by (simp add: INT_MAX_def)
next
  case (Suc n)
  then have IH: "for_loop [0..<n] (parse_block bytes) ([], 0) =
     (if int (64 * n) \<le> INT_MAX then Some (map (block_at bytes) [0..<n], int (64 * n))
      else None)"
    by simp
  show ?case
  proof (cases "int (64 * n) \<le> INT_MAX")
    case True
    have "parse_block bytes n (map (block_at bytes) [0..<n], int (64 * n)) =
       (if int (64 * Suc n) \<le> INT_MAX
        then Some (map (block_at bytes) [0..<n] @ [block_at bytes n], int (64 * Suc n))
        else None)"
      using Suc.prems True by (intro parse_block_step) simp_all
    with True show ?thesis
      unfolding for_loop_upt_Suc [OF le0] IH by simp
  next
    case False
    then have "\<not> int (64 * Suc n) \<le> INT_MAX" by simp
    with False show ?thesis
      unfolding for_loop_upt_Suc [OF le0] IH by (simp only: if_False Option.bind.simps)
  qed
qed

lemma parsingMessage_value:
  "parsingMessage bytes =
     (if int (64 * (length bytes div 64)) \<le> INT_MAX then Some (parse_spec bytes) else None)"
  using parse_blocks_loop [of "length bytes div 64" bytes]
  by (simp add: parsingMessage_def parse_spec_def)

lemma parsingMessage_small:
  "length bytes < 2 ^ 31 \<Longrightarrow> parsingMessage bytes = Some (parse_spec bytes)"
  unfolding parsingMessage_value by (simp add: INT_MAX_def)

lemma parsingMessage_large:
  assumes "2 ^ 31 \<le> length bytes"
  shows "parsingMessage bytes = None"
proof -
  have "(2 :: nat) ^ 31 div 64 \<le> length bytes div 64"
    using assms by (rule div_le_mono)
  then have "33554432 \<le> length bytes div 64" by simp
  then show ?thesis
    unfolding parsingMessage_value by (simp add: INT_MAX_def)
qed

lemma length_parse_spec [simp]: "length (parse_spec bytes) = length bytes div 64"
  by (simp add: parse_spec_def)

lemma length_block_at [simp]: "length (block_at bytes n) = 16"
  by (simp add: block_at_def)

lemma parse_spec_nth:
  "n < length bytes div 64 \<Longrightarrow> j < 16 \<Longrightarrow>
   parse_spec bytes ! n ! j =
     be32_spec (bytes ! (64 * n + 4 * j)) (bytes ! (64 * n + 4 * j + 1))
       (bytes ! (64 * n + 4 * j + 2)) (bytes ! (64 * n + 4 * j + 3))"
  by (simp add: parse_spec_def block_at_def word_at_def)

lemma length_be_bytes [simp]: "length (be_bytes n L) = n"
  by (induction n arbitrary: L) simp_all

lemma pipeline_block_count:
  assumes "length m + 73 \<le> 2 ^ 31"
  shows "paddingMessage m \<bind> parsingMessage \<bind> (\<lambda>M. Some (length M)) =
     Some ((length m + 1 + zero_bytes_spec (length m) + 8) div 64)"
proof -
  let ?P = "m @ [0x80] @ replicate (zero_bytes_spec (length m)) 0 @ be_bytes 8 (length m * 8)"
  have "paddingMessage m = Some ?P"
    using assms by (intro paddingMessage_value) simp
  moreover have "length ?P < 2 ^ 31"
    using assms zero_bytes_spec_less [of "length m"] by simp
  then have "parsingMessage ?P = Some (parse_spec ?P)"
    by (rule parsingMessage_small)
  ultimately show ?thesis by simp
qed

text \<open>
  C4 (amended): for every byte sequence whose length is a multiple of 64 and below \<open>2^31\<close>,
  \<open>parsingMessage\<close> returns \<open>length / 64\<close> blocks of 16 words each, in the order of the input:
  word \<open>j\<close> of block \<open>n\<close> is made of the four bytes from index \<open>64 * n + 4 * j\<close> on, the most
  significant first. Padding followed by parsing gives 1 block for the empty message,
  1 block for a message of 55 bytes and 2 blocks for a message of 56 bytes.
\<close>

theorem parsingMessage_spec:
  assumes "length bytes mod 64 = 0" and "length bytes < 2 ^ 31"
  shows "parsingMessage bytes = Some (parse_spec bytes) \<and>
     length (parse_spec bytes) = length bytes div 64 \<and>
     (n < length bytes div 64 \<longrightarrow>
        length (parse_spec bytes ! n) = 16 \<and>
        (j < 16 \<longrightarrow>
           parse_spec bytes ! n ! j =
             be32_spec (bytes ! (64 * n + 4 * j)) (bytes ! (64 * n + 4 * j + 1))
               (bytes ! (64 * n + 4 * j + 2)) (bytes ! (64 * n + 4 * j + 3)))) \<and>
     (length m = 0 \<or> length m = 55 \<longrightarrow>
        paddingMessage m \<bind> parsingMessage \<bind> (\<lambda>M. Some (length M)) = Some 1) \<and>
     (length m = 56 \<longrightarrow>
        paddingMessage m \<bind> parsingMessage \<bind> (\<lambda>M. Some (length M)) = Some 2)"
proof -
  have "length (parse_spec bytes ! n) = 16" if "n < length bytes div 64"
    using that by (simp add: parse_spec_def)
  moreover have "paddingMessage m \<bind> parsingMessage \<bind> (\<lambda>M. Some (length M)) = Some 1"
    if "length m = 0 \<or> length m = 55"
    using that pipeline_block_count [of m] by (auto simp: zero_bytes_spec_def)
  moreover have "paddingMessage m \<bind> parsingMessage \<bind> (\<lambda>M. Some (length M)) = Some 2"
    if "length m = 56"
    using that pipeline_block_count [of m] by (simp add: zero_bytes_spec_def)
  ultimately show ?thesis
    using parsingMessage_small [OF assms(2)] parse_spec_nth [of n bytes j] by simp
qed

lemma upt_0_16: "[0..<16] = [0, 1, 2, 3, 4, 5, 6, 7, 8, 9, 10, 11, 12, 13, 14, 15]"
  by (simp add: upt_rec)

lemmas parse_eval = parse_spec_def block_at_def word_at_def be32_spec_def upt_0_16

lemma parse_abc:
  "parse_spec [0x61, 0x62, 0x63, 0x80, 0, 0, 0, 0, 0, 0, 0, 0, 0, 0, 0, 0, 0, 0, 0, 0, 0, 0, 0, 0, 0, 0, 0, 0, 0, 0, 0, 0, 0, 0, 0, 0, 0, 0, 0, 0, 0, 0, 0, 0, 0, 0, 0, 0, 0, 0, 0, 0, 0, 0, 0, 0, 0, 0, 0, 0, 0, 0, 0, 0x18 :: u8] =
     [[0x61626380, 0, 0, 0, 0, 0, 0, 0, 0, 0, 0, 0, 0, 0, 0, 0x18]]"
  by (simp add: parse_eval)

theorem parsingMessage_spec_witness:
  "length [0x61, 0x62, 0x63, 0x80, 0, 0, 0, 0, 0, 0, 0, 0, 0, 0, 0, 0, 0, 0, 0, 0, 0, 0, 0, 0, 0, 0, 0, 0, 0, 0, 0, 0, 0, 0, 0, 0, 0, 0, 0, 0, 0, 0, 0, 0, 0, 0, 0, 0, 0, 0, 0, 0, 0, 0, 0, 0, 0, 0, 0, 0, 0, 0, 0, 0x18 :: u8] mod 64 = 0 \<and> length [0x61, 0x62, 0x63, 0x80, 0, 0, 0, 0, 0, 0, 0, 0, 0, 0, 0, 0, 0, 0, 0, 0, 0, 0, 0, 0, 0, 0, 0, 0, 0, 0, 0, 0, 0, 0, 0, 0, 0, 0, 0, 0, 0, 0, 0, 0, 0, 0, 0, 0, 0, 0, 0, 0, 0, 0, 0, 0, 0, 0, 0, 0, 0, 0, 0, 0x18 :: u8] < 2 ^ 31 \<and>
   parsingMessage [0x61, 0x62, 0x63, 0x80, 0, 0, 0, 0, 0, 0, 0, 0, 0, 0, 0, 0, 0, 0, 0, 0, 0, 0, 0, 0, 0, 0, 0, 0, 0, 0, 0, 0, 0, 0, 0, 0, 0, 0, 0, 0, 0, 0, 0, 0, 0, 0, 0, 0, 0, 0, 0, 0, 0, 0, 0, 0, 0, 0, 0, 0, 0, 0, 0, 0x18] = Some [[0x61626380, 0, 0, 0, 0, 0, 0, 0, 0, 0, 0, 0, 0, 0, 0, 0x18]] \<and>
   (0 :: nat) < length [0x61, 0x62, 0x63, 0x80, 0, 0, 0, 0, 0, 0, 0, 0, 0, 0, 0, 0, 0, 0, 0, 0, 0, 0, 0, 0, 0, 0, 0, 0, 0, 0, 0, 0, 0, 0, 0, 0, 0, 0, 0, 0, 0, 0, 0, 0, 0, 0, 0, 0, 0, 0, 0, 0, 0, 0, 0, 0, 0, 0, 0, 0, 0, 0, 0, 0x18 :: u8] div 64 \<and> (15 :: nat) < 16 \<and>
   be32_spec 0 0 0 0x18 = 0x18 \<and>
   length ([] :: u8 list) = 0 \<and>
   paddingMessage [] \<bind> parsingMessage \<bind> (\<lambda>M. Some (length M)) = Some 1 \<and>
   length (replicate 56 (0x61 :: u8)) = 56 \<and>
   paddingMessage (replicate 56 0x61) \<bind> parsingMessage \<bind> (\<lambda>M. Some (length M)) = Some 2"
proof -
  have h: "length [0x61, 0x62, 0x63, 0x80, 0, 0, 0, 0, 0, 0, 0, 0, 0, 0, 0, 0, 0, 0, 0, 0, 0, 0, 0, 0, 0, 0, 0, 0, 0, 0, 0, 0, 0, 0, 0, 0, 0, 0, 0, 0, 0, 0, 0, 0, 0, 0, 0, 0, 0, 0, 0, 0, 0, 0, 0, 0, 0, 0, 0, 0, 0, 0, 0, 0x18 :: u8] mod 64 = 0" "length [0x61, 0x62, 0x63, 0x80, 0, 0, 0, 0, 0, 0, 0, 0, 0, 0, 0, 0, 0, 0, 0, 0, 0, 0, 0, 0, 0, 0, 0, 0, 0, 0, 0, 0, 0, 0, 0, 0, 0, 0, 0, 0, 0, 0, 0, 0, 0, 0, 0, 0, 0, 0, 0, 0, 0, 0, 0, 0, 0, 0, 0, 0, 0, 0, 0, 0x18 :: u8] < 2 ^ 31"
    by simp_all
  have e: "length ([] :: u8 list) = 0 \<or> length ([] :: u8 list) = 55"
    and f: "length (replicate 56 (0x61 :: u8)) = 56"
    by simp_all
  show ?thesis
    using parsingMessage_spec [OF h, of 0 15 "[]"] e
      parsingMessage_spec [OF h, of 0 15 "replicate 56 0x61"] f
    unfolding parse_abc
    by (simp add: be32_spec_def)
qed

lemma pipeline_overflow:
  "map_option length (paddingMessage (replicate 2147483576 0)) = Some 2147483648"
  "paddingMessage (replicate 2147483576 0) \<bind> parsingMessage = None"
proof -
  let ?m = "replicate 2147483576 (0 :: u8)"
  let ?P = "?m @ [0x80] @ replicate (zero_bytes_spec (length ?m)) 0 @ be_bytes 8 (length ?m * 8)"
  have len: "length ?m = 2147483576" by (rule length_replicate)
  have "length ?m * 8 + 72 \<le> 2 ^ 63" unfolding len by simp
  then have P: "paddingMessage ?m = Some ?P" by (rule paddingMessage_value)
  have z: "zero_bytes_spec 2147483576 = 63" by (simp add: zero_bytes_spec_def)
  have lenP: "length ?P = 2147483648"
    by (simp only: length_append len z length_replicate length_be_bytes list.size)
  then have "parsingMessage ?P = None"
    by (intro parsingMessage_large) simp
  with P lenP show "map_option length (paddingMessage ?m) = Some 2147483648"
    and "paddingMessage ?m \<bind> parsingMessage = None"
    by (simp_all only: option.map Option.bind.simps)
qed

theorem parsingMessage_overflow_counterexample:
  "map_option length (paddingMessage (replicate 2147483576 0)) = Some 2147483648 \<and>
   paddingMessage (replicate 2147483576 0) \<bind> parsingMessage = None"
  using pipeline_overflow by (simp only: simp_thms)

section \<open>Printing and the pipeline\<close>

declare hex_str.simps [simp del]

lemma upt_0_8: "[0..<8] = [0, 1, 2, 3, 4, 5, 6, 7]"
  by (simp add: upt_rec)

lemma printHash_value:
  assumes "n < length H" and "length (H ! n) = 8"
  shows "printHash H (int n) = Some (print_spec (H ! n))"
proof -
  obtain v0 v1 v2 v3 v4 v5 v6 v7 where row: "H ! n = [v0, v1, v2, v3, v4, v5, v6, v7]"
    using assms(2) by (auto simp: length_Suc_conv eval_nat_numeral)
  have "print_word H (int n) i out = Some (out @ hex8 (H ! n ! i))" if "i < 8" for i out
    using that assms by (simp add: print_word_def vec_at_def hex8_def)
  then show ?thesis
    by (simp add: printHash_def upt_0_8 for_loop_Cons print_spec_def row)
qed

lemma length_hex_str: "0 < k \<Longrightarrow> n < 16 ^ k \<Longrightarrow> length (hex_str n) \<le> k"
proof (induction k arbitrary: n)
  case 0
  then show ?case by simp
next
  case (Suc k)
  show ?case
  proof (cases "n < 16")
    case True
    then show ?thesis by (simp add: hex_str.simps)
  next
    case False
    then have "0 < k" using Suc.prems by (cases k) simp_all
    moreover have "n div 16 < 16 ^ k"
      using Suc.prems by (simp add: less_mult_imp_div_less mult.commute)
    ultimately have "length (hex_str (n div 16)) \<le> k" by (rule Suc.IH)
    with False show ?thesis by (simp add: hex_str.simps [of n])
  qed
qed

lemma hex_digit_in: "d < 16 \<Longrightarrow> hex_digit d \<in> set ''0123456789abcdef''"
  unfolding hex_digit_def by (rule nth_mem) simp

lemma set_hex_str: "set (hex_str n) \<subseteq> set ''0123456789abcdef''"
proof (induction n rule: hex_str.induct)
  case (1 n)
  show ?case
  proof (cases "n < 16")
    case True
    then show ?thesis using hex_digit_in [of n] by (simp add: hex_str.simps [of n])
  next
    case False
    then show ?thesis
      using 1 hex_digit_in [of "n mod 16"] by (simp add: hex_str.simps [of n])
  qed
qed

lemma length_hex8 [simp]: "length (hex8 v) = 8"
proof -
  have "unat v < 16 ^ 8" using unsigned_less [of v] by simp
  then have "length (hex_str (unat v)) \<le> 8" by (intro length_hex_str) simp
  then show ?thesis by (simp add: hex8_def setw_fill_def)
qed

lemma set_hex8: "set (hex8 v) \<subseteq> set ''0123456789abcdef''"
  using set_hex_str [of "unat v"] by (auto simp: hex8_def setw_fill_def)

lemma length_concat_hex8: "length (concat (map hex8 ws)) = 8 * length ws"
  by (induction ws) simp_all

lemma set_concat_hex8: "set (concat (map hex8 ws)) \<subseteq> set ''0123456789abcdef''"
  using set_hex8 by (induction ws) auto

lemma parsed_wellformed:
  assumes "parsingMessage bytes = Some M"
  shows "M = parse_spec bytes" and "length M < 2 ^ 25" and "\<forall>blk \<in> set M. length blk = 16"
proof -
  from assms have ok: "int (64 * (length bytes div 64)) \<le> INT_MAX"
    and M: "M = parse_spec bytes"
    by (simp_all add: parsingMessage_value split: if_splits)
  show "M = parse_spec bytes" by (rule M)
  show "length M < 2 ^ 25" using ok by (simp add: M INT_MAX_def)
  show "\<forall>blk \<in> set M. length blk = 16" by (auto simp: M parse_spec_def)
qed

lemma getHash_parsed:
  assumes "parsingMessage bytes = Some M"
  shows "\<exists>s'. getHash s M = Some (hash_chain_spec H0 M, s')"
proof -
  have "\<forall>blk \<in> set M. 16 \<le> length blk"
    using parsed_wellformed(3) [OF assms] by simp
  moreover have "length M < 2 ^ 31 - 1"
    using parsed_wellformed(2) [OF assms] by simp
  ultimately show ?thesis by (rule getHash_spec)
qed

lemma last_hash_chain_spec:
  "last (hash_chain_spec H M) = hash_chain_spec H M ! length M"
proof -
  have "hash_chain_spec H M \<noteq> []" by (cases M) simp_all
  then show ?thesis by (simp add: last_conv_nth)
qed

lemma printHash_chain:
  assumes "length M < 2 ^ 25"
  shows "printHash (hash_chain_spec H0 M) (size_to_int (length M)) =
     Some (print_spec (last (hash_chain_spec H0 M)))"
proof -
  have "size_to_int (length M) = int (length M)"
    using assms by (intro size_to_int_small) simp
  moreover have "length (hash_chain_spec H0 M ! length M) = 8"
    by (intro hash_chain_spec_rows) (simp_all add: H0_def)
  ultimately show ?thesis
    by (simp add: printHash_value last_hash_chain_spec)
qed

lemma main_line_fst:
  "map_option fst (main_line s m) =
     paddingMessage m \<bind> parsingMessage \<bind>
       (\<lambda>M. Some (print_spec (last (hash_chain_spec H0 M))))"
proof (cases "paddingMessage m")
  case None
  then show ?thesis by (simp add: main_line_def)
next
  case (Some P)
  show ?thesis
  proof (cases "parsingMessage P")
    case None
    with Some show ?thesis by (simp add: main_line_def)
  next
    case M: (Some M)
    from getHash_parsed [OF M] obtain s' where
      "getHash s M = Some (hash_chain_spec H0 M, s')" by blast
    with Some M show ?thesis
      using printHash_chain [OF parsed_wellformed(2) [OF M]]
      by (simp add: main_line_def)
  qed
qed

lemma main_line_small:
  assumes "length m + 73 \<le> 2 ^ 31"
  shows "map_option fst (main_line s m) = Some (print_spec (sha256_spec m))"
proof -
  have "paddingMessage m = Some (pad_spec m)"
    unfolding pad_spec_def using assms by (intro paddingMessage_value) simp
  moreover have "length (pad_spec m) < 2 ^ 31"
    using assms zero_bytes_spec_less [of "length m"] by (simp add: pad_spec_def)
  then have "parsingMessage (pad_spec m) = Some (parse_spec (pad_spec m))"
    by (rule parsingMessage_small)
  ultimately show ?thesis
    by (simp add: main_line_fst sha256_spec_def)
qed

lemma main_loop_fst:
  "map_option fst (main_loop s ms) = those (map (\<lambda>m. map_option fst (main_line globals0 m)) ms)"
proof (induction ms arbitrary: s)
  case Nil
  then show ?case by simp
next
  case (Cons m ms)
  show ?case
  proof (cases "main_line s m")
    case None
    then have "map_option fst (main_line globals0 m) = None"
      using main_line_fst [of s m] main_line_fst [of globals0 m] by simp
    with None show ?thesis by simp
  next
    case (Some r)
    obtain out s1 where r: "r = (out, s1)" by (cases r)
    have 1: "map_option fst (main_line globals0 m) = Some out"
      using main_line_fst [of s m] main_line_fst [of globals0 m] Some r by simp
    have 2: "those (map (\<lambda>m. map_option fst (main_line globals0 m)) ms)
        = map_option fst (main_loop s1 ms)"
      using Cons [of s1] by simp
    show ?thesis
      by (cases "main_loop s1 ms") (auto simp: Some r 1 2)
  qed
qed

lemma pad_spec_empty:
  "pad_spec [] = 0x80 # replicate 55 0 @ [0, 0, 0, 0, 0, 0, 0, 0]"
  by (simp add: pad_spec_def zero_bytes_spec_def be_bytes_8)

lemma pad_spec_abc:
  "pad_spec [0x61, 0x62, 0x63] = [0x61, 0x62, 0x63, 0x80] @ replicate 52 0 @ [0, 0, 0, 0, 0, 0, 0, 0x18]"
  by (simp add: pad_spec_def zero_bytes_spec_def be_bytes_8)

lemma replicate_numeral_unfold: "replicate (numeral k) x = x # replicate (pred_numeral k) x"
  by (simp add: numeral_eq_Suc)

lemma parse_empty:
  "parse_spec (pad_spec []) = [[0x80000000, 0, 0, 0, 0, 0, 0, 0, 0, 0, 0, 0, 0, 0, 0, 0]]"
  unfolding pad_spec_empty
  by (simp add: parse_eval replicate_numeral_unfold)

lemma parse_pad_abc:
  "parse_spec (pad_spec [0x61, 0x62, 0x63]) =
     [[0x61626380, 0, 0, 0, 0, 0, 0, 0, 0, 0, 0, 0, 0, 0, 0, 0x18]]"
  unfolding pad_spec_abc
  by (simp add: parse_eval replicate_numeral_unfold)

lemma sha256_empty:
  "sha256_spec [] =
     [0xe3b0c442, 0x98fc1c14, 0x9afbf4c8, 0x996fb924, 0x27ae41e4, 0x649b934c, 0xa495991b, 0x7852b855]"
  by (simp add: sha256_spec_def parse_empty compress_empty)

lemma sha256_abc:
  "sha256_spec [0x61, 0x62, 0x63] =
     [0xba7816bf, 0x8f01cfea, 0x414140de, 0x5dae2223, 0xb00361a3, 0x96177a9c, 0xb410ff61, 0xf20015ad]"
  by (simp add: sha256_spec_def parse_pad_abc compress_abc)

lemmas print_eval = print_spec_def hex8_def setw_fill_def hex_str.simps hex_digit_def

lemma print_empty:
  "print_spec [0xe3b0c442, 0x98fc1c14, 0x9afbf4c8, 0x996fb924, 0x27ae41e4, 0x649b934c, 0xa495991b, 0x7852b855]
     = ''e3b0c44298fc1c149afbf4c8996fb92427ae41e4649b934ca495991b7852b855'' @ [CHR 0x0A]"
  by (simp add: print_eval)

lemma print_abc:
  "print_spec [0xba7816bf, 0x8f01cfea, 0x414140de, 0x5dae2223, 0xb00361a3, 0x96177a9c, 0xb410ff61, 0xf20015ad]
     = ''ba7816bf8f01cfea414140de5dae2223b00361a396177a9cb410ff61f20015ad'' @ [CHR 0x0A]"
  by (simp add: print_eval)

text \<open>
  C1: for any state of the globals, the pipeline of \<open>main\<close> (padding, parsing, hash
  computation, printing) run on the empty byte sequence prints
  \<open>e3b0c44298fc1c149afbf4c8996fb92427ae41e4649b934ca495991b7852b855\<close>, and run on the bytes
  \<open>0x61 0x62 0x63\<close> prints \<open>ba7816bf8f01cfea414140de5dae2223b00361a396177a9cb410ff61f20015ad\<close>.
\<close>

theorem known_answers:
  "map_option fst (main_line s []) =
     Some (''e3b0c44298fc1c149afbf4c8996fb92427ae41e4649b934ca495991b7852b855'' @ [CHR 0x0A]) \<and>
   map_option fst (main_line s [0x61, 0x62, 0x63]) =
     Some (''ba7816bf8f01cfea414140de5dae2223b00361a396177a9cb410ff61f20015ad'' @ [CHR 0x0A])"
  by (simp add: main_line_small sha256_empty sha256_abc print_empty print_abc
      del: append.simps)

section \<open>The hash chain, the globals and the digest\<close>

text \<open>
  C2 (amended): for every sequence of fewer than \<open>2^31 - 1\<close> blocks of 16 words each,
  \<open>getHash\<close> returns the chain of hash values of the specification: it starts with the initial hash value, and the value after
  block \<open>i\<close> is \<open>compress_spec\<close> of the value before it and the block. \<open>compress_spec\<close> adds
  to the previous value, word by word modulo \<open>2^32\<close>, the registers after 64 rounds
  started from the previous value; round \<open>t\<close> is \<open>round_spec\<close> with \<open>K[t]\<close> and \<open>W[t]\<close>;
  \<open>W[t]\<close> is word \<open>t\<close> of the block for \<open>t < 16\<close> and
  \<open>sigma1(W[t-2]) + W[t-7] + sigma0(W[t-15]) + W[t-16]\<close> from 16 on.
\<close>

theorem getHash_follows_spec:
  assumes "\<forall>blk \<in> set M. length blk = 16" and "length M < 2147483647"
  shows "map_option fst (getHash s M) = Some (hash_chain_spec H0 M) \<and>
     length (hash_chain_spec H0 M) = length M + 1 \<and>
     hash_chain_spec H0 M ! 0 = H0 \<and>
     (i < length M \<longrightarrow>
        hash_chain_spec H0 M ! Suc i = compress_spec (hash_chain_spec H0 M ! i) (M ! i)) \<and>
     compress_spec H blk =
       (case rounds_spec blk 64 (H ! 0, H ! 1, H ! 2, H ! 3, H ! 4, H ! 5, H ! 6, H ! 7) of
          (a, b, c, d, e, f, g, h) \<Rightarrow>
            [H ! 0 + a, H ! 1 + b, H ! 2 + c, H ! 3 + d, H ! 4 + e, H ! 5 + f, H ! 6 + g, H ! 7 + h]) \<and>
     rounds_spec blk 0 r = r \<and>
     rounds_spec blk (Suc t) r = round_spec (K ! t) (schedule_spec blk t) (rounds_spec blk t r) \<and>
     round_spec k w (a', b', c', d', e', f', g', h') =
       (let T1 = h' + Sigma1_spec e' + Ch e' f' g' + k + w;
            T2 = Sigma0_spec a' + Maj a' b' c'
        in (T1 + T2, a', b', c', d' + T1, e', f', g')) \<and>
     (ta < 16 \<longrightarrow> schedule_spec blk ta = blk ! ta) \<and>
     (16 \<le> tb \<longrightarrow>
        schedule_spec blk tb =
          sigma1_spec (schedule_spec blk (tb - 2)) + schedule_spec blk (tb - 7)
          + sigma0_spec (schedule_spec blk (tb - 15)) + schedule_spec blk (tb - 16))"
proof -
  have "\<forall>blk \<in> set M. 16 \<le> length blk" using assms(1) by simp
  moreover have "length M < 2 ^ 31 - 1" using assms(2) by simp
  ultimately obtain s' where "getHash s M = Some (hash_chain_spec H0 M, s')"
    using getHash_spec [of M s] by blast
  moreover have "hash_chain_spec H0 M ! 0 = H0" by (cases M) simp_all
  moreover have "schedule_spec blk ta = blk ! ta" if "ta < 16"
    using that by (simp add: schedule_spec.simps)
  moreover have "schedule_spec blk tb =
      sigma1_spec (schedule_spec blk (tb - 2)) + schedule_spec blk (tb - 7)
      + sigma0_spec (schedule_spec blk (tb - 15)) + schedule_spec blk (tb - 16)" if "16 \<le> tb"
    using that by (subst schedule_spec.simps) simp
  ultimately show ?thesis
    by (simp add: hash_chain_spec_step compress_spec_def round_spec_def)
qed

theorem getHash_follows_spec_witness:
  "length ([0x61626380, 0, 0, 0, 0, 0, 0, 0, 0, 0, 0, 0, 0, 0, 0, 0x18] :: u32 list) = 16 \<and>
   length [[0x61626380, 0, 0, 0, 0, 0, 0, 0, 0, 0, 0, 0, 0, 0, 0, 0x18] :: u32 list] < 2147483647 \<and>
   map_option fst (getHash globals0 [[0x61626380, 0, 0, 0, 0, 0, 0, 0, 0, 0, 0, 0, 0, 0, 0, 0x18]]) =
     Some [H0, [0xba7816bf, 0x8f01cfea, 0x414140de, 0x5dae2223,
                0xb00361a3, 0x96177a9c, 0xb410ff61, 0xf20015ad]] \<and>
   (0 :: nat) < length [[0x61626380, 0, 0, 0, 0, 0, 0, 0, 0, 0, 0, 0, 0, 0, 0, 0x18]] \<and>
   (15 :: nat) < 16 \<and> schedule_spec [0x61626380, 0, 0, 0, 0, 0, 0, 0, 0, 0, 0, 0, 0, 0, 0, 0x18] 15 = 0x18 \<and>
   (16 :: nat) \<le> 16 \<and> schedule_spec [0x61626380, 0, 0, 0, 0, 0, 0, 0, 0, 0, 0, 0, 0, 0, 0, 0x18] 16 = 0x61626380"
proof -
  have h: "\<forall>blk \<in> set [[0x61626380, 0, 0, 0, 0, 0, 0, 0, 0, 0, 0, 0, 0, 0, 0, 0x18]]. length blk = 16"
    "length [[0x61626380, 0, 0, 0, 0, 0, 0, 0, 0, 0, 0, 0, 0, 0, 0, 0x18]] < 2147483647"
    by simp_all
  note T = getHash_follows_spec [OF h, where s = globals0 and i = 0 and ta = 15 and tb = 16
      and blk = "[0x61626380, 0, 0, 0, 0, 0, 0, 0, 0, 0, 0, 0, 0, 0, 0, 0x18]"]
  note T8 = T [THEN conjunct2, THEN conjunct2, THEN conjunct2, THEN conjunct2, THEN conjunct2,
      THEN conjunct2, THEN conjunct2, THEN conjunct2]
  have "map_option fst (getHash globals0 [[0x61626380, 0, 0, 0, 0, 0, 0, 0, 0, 0, 0, 0, 0, 0, 0, 0x18]]) = Some (hash_chain_spec H0 [[0x61626380, 0, 0, 0, 0, 0, 0, 0, 0, 0, 0, 0, 0, 0, 0, 0x18]])"
    by (rule T [THEN conjunct1])
  moreover have "schedule_spec [0x61626380, 0, 0, 0, 0, 0, 0, 0, 0, 0, 0, 0, 0, 0, 0, 0x18] 15 = [0x61626380, 0, 0, 0, 0, 0, 0, 0, 0, 0, 0, 0, 0, 0, 0, 0x18] ! 15"
    by (rule T8 [THEN conjunct1, THEN mp]) simp
  moreover have "schedule_spec [0x61626380, 0, 0, 0, 0, 0, 0, 0, 0, 0, 0, 0, 0, 0, 0, 0x18] 16 =
      sigma1_spec (schedule_spec [0x61626380, 0, 0, 0, 0, 0, 0, 0, 0, 0, 0, 0, 0, 0, 0, 0x18] (16 - 2)) + schedule_spec [0x61626380, 0, 0, 0, 0, 0, 0, 0, 0, 0, 0, 0, 0, 0, 0, 0x18] (16 - 7)
      + sigma0_spec (schedule_spec [0x61626380, 0, 0, 0, 0, 0, 0, 0, 0, 0, 0, 0, 0, 0, 0, 0x18] (16 - 15)) + schedule_spec [0x61626380, 0, 0, 0, 0, 0, 0, 0, 0, 0, 0, 0, 0, 0, 0, 0x18] (16 - 16)"
    by (rule T8 [THEN conjunct2, THEN mp]) simp
  ultimately show ?thesis
    using h
    by (simp add: compress_abc schedule_spec.simps sigma0_spec_def sigma1_spec_def ROTR_spec_def
        SHR_spec_def)
qed

theorem getHash_block_count_counterexample:
  "getHash globals0 (replicate 2147483648 (replicate 16 0)) = Some ([H0], globals0) \<and>
   hash_chain_spec H0 (replicate 2147483648 (replicate 16 0)) \<noteq> [H0]"
proof -
  have "size_to_int 2147483648 = - 2147483648"
    by (simp add: size_to_int_def)
  then have "getHash globals0 (replicate 2147483648 (replicate 16 0)) = Some ([H0], globals0)"
    by (simp add: getHash_def INT_MAX_def)
  moreover have "hash_chain_spec H0 (replicate 2147483648 (replicate 16 0)) \<noteq> [H0]"
  proof
    assume "hash_chain_spec H0 (replicate 2147483648 (replicate 16 0)) = [H0]"
    then have "length (hash_chain_spec H0 (replicate 2147483648 (replicate 16 0))) = length [H0]"
      by (rule arg_cong)
    then show False
      by (simp only: length_hash_chain_spec length_replicate list.size)
  qed
  ultimately show ?thesis by (rule conjI)
qed

lemma for_loop_invariant:
  assumes "for_loop ts body s = Some s'" and "P s"
    and "\<And>t s s'. P s \<Longrightarrow> body t s = Some s' \<Longrightarrow> P s'"
  shows "P s'"
  using assms(1,2)
proof (induction ts arbitrary: s)
  case Nil
  then show ?case by simp
next
  case (Cons t ts)
  then obtain s1 where "body t s = Some s1" "for_loop ts body s1 = Some s'"
    by (auto simp: for_loop_Cons split: bind_splits)
  with Cons assms(3) show ?case by blast
qed

lemma hash_block_appends:
  "hash_block M i (Hash, s) = Some (Hash', s') \<Longrightarrow> \<exists>x. Hash' = Hash @ [x]"
  by (auto simp: hash_block_def split: bind_splits)

lemma getHash_starts_with_H0:
  assumes "getHash s M = Some (Hash, s')"
  shows "Hash ! 0 = H0"
proof -
  have loop: "for_loop [1..<nat (size_to_int (length M)) + 1] (hash_block M) ([H0], s)
      = Some (Hash, s')"
    using assms unfolding getHash_def Let_def
    by (cases "size_to_int (length M) = INT_MAX") (simp_all only: simp_thms if_True if_False option.distinct)
  have "\<exists>xs. fst (Hash, s') = H0 # xs"
  proof (rule for_loop_invariant [OF loop, where P = "\<lambda>r. \<exists>xs. fst r = H0 # xs"])
    show "\<exists>xs. fst ([H0], s) = H0 # xs" by simp
  next
    fix t r r'
    assume "\<exists>xs. fst r = H0 # xs" and "hash_block M t r = Some r'"
    then show "\<exists>xs. fst r' = H0 # xs"
      using hash_block_appends [of M t "fst r" "snd r" "fst r'" "snd r'"] by auto
  qed
  then show ?thesis by auto
qed

text \<open>
  C7: what the pipeline prints for a message does not depend on the values that earlier
  calls left in the globals \<open>W\<close>, \<open>a\<close> to \<open>h\<close>, \<open>T1\<close> and \<open>T2\<close>: from any two states the
  output for \<open>m\<close> is the same, and the loop of \<open>main\<close> over any list of messages prints
  for each of them what a run on that message alone, from the initial state, prints.
  Whatever the state, a call of \<open>getHash\<close> that returns starts its chain with \<open>H0\<close>. \<open>K\<close>
  is declared \<open>const\<close> and is a constant of the model; \<open>H0\<close> is built anew by every call
  of \<open>getHash\<close>; neither is part of the state that a call can change.
\<close>

theorem no_state_leak:
  "map_option fst (main_line s m) = map_option fst (main_line s' m) \<and>
   map_option fst (main_loop s ms) =
     those (map (\<lambda>m. map_option fst (main_line globals0 m)) ms) \<and>
   map_option (\<lambda>r. fst r ! 0) (getHash s M) = map_option (\<lambda>r. H0) (getHash s M)"
proof -
  have "map_option (\<lambda>r. fst r ! 0) (getHash s M) = map_option (\<lambda>r. H0) (getHash s M)"
    using getHash_starts_with_H0 [of s M] by (cases "getHash s M") auto
  then show ?thesis
    using main_line_fst [of s m] main_line_fst [of s' m] main_loop_fst [of s ms] by simp
qed

text \<open>
  C8 (amended): for every input of at most \<open>2^31 - 73\<close> bytes, the empty one included,
  the pipeline prints a digest: the entry \<open>Hash[N]\<close> of the chain that \<open>getHash\<close>
  returns, which has exactly 8 words, written as 64 characters, 8 for each word, all of
  them lower-case hexadecimal digits, and a newline.
\<close>

theorem digest_has_8_words:
  assumes "length m + 73 \<le> 2 ^ 31"
  shows "map_option fst (main_line s m) = Some (print_spec (sha256_spec m)) \<and>
     paddingMessage m \<bind> parsingMessage \<bind>
       (\<lambda>M. map_option (\<lambda>(Hash, s'). Hash ! length M) (getHash s M)) = Some (sha256_spec m) \<and>
     length (sha256_spec m) = 8 \<and>
     print_spec (sha256_spec m) = concat (map hex8 (sha256_spec m)) @ [CHR 0x0A] \<and>
     length (concat (map hex8 (sha256_spec m))) = 64 \<and>
     set (concat (map hex8 (sha256_spec m))) \<subseteq> set ''0123456789abcdef''"
proof -
  let ?M = "parse_spec (pad_spec m)"
  have pad: "paddingMessage m = Some (pad_spec m)"
    unfolding pad_spec_def using assms by (intro paddingMessage_value) simp
  have "length (pad_spec m) < 2 ^ 31"
    using assms zero_bytes_spec_less [of "length m"] by (simp add: pad_spec_def)
  then have parse: "parsingMessage (pad_spec m) = Some ?M"
    by (rule parsingMessage_small)
  from getHash_parsed [OF parse] obtain s' where
    hash: "getHash s ?M = Some (hash_chain_spec H0 ?M, s')" by blast
  have len: "length (sha256_spec m) = 8"
    unfolding sha256_spec_def last_hash_chain_spec
    by (intro hash_chain_spec_rows) (simp_all add: H0_def)
  show ?thesis
    using main_line_small [OF assms, of s] len set_concat_hex8 [of "sha256_spec m"]
    by (simp add: pad parse hash sha256_spec_def last_hash_chain_spec print_spec_def
        length_concat_hex8)
qed

theorem digest_has_8_words_witness:
  "length ([] :: u8 list) + 73 \<le> 2 ^ 31 \<and>
   map_option fst (main_line globals0 []) =
     Some (''e3b0c44298fc1c149afbf4c8996fb92427ae41e4649b934ca495991b7852b855'' @ [CHR 0x0A]) \<and>
   paddingMessage [] \<bind> parsingMessage \<bind>
     (\<lambda>M. map_option (\<lambda>(Hash, s'). Hash ! length M) (getHash globals0 M)) =
     Some [0xe3b0c442, 0x98fc1c14, 0x9afbf4c8, 0x996fb924,
           0x27ae41e4, 0x649b934c, 0xa495991b, 0x7852b855]"
proof -
  have h: "length ([] :: u8 list) + 73 \<le> 2 ^ 31" by simp
  from digest_has_8_words [OF h, of globals0]
  have "map_option fst (main_line globals0 []) = Some (print_spec (sha256_spec []))"
    and "paddingMessage [] \<bind> parsingMessage \<bind>
      (\<lambda>M. map_option (\<lambda>(Hash, s'). Hash ! length M) (getHash globals0 M)) =
      Some (sha256_spec [])"
    by blast+
  then show ?thesis
    unfolding sha256_empty print_empty using h by simp
qed

theorem digest_overflow_counterexample:
  "main_line globals0 (replicate 2147483576 0) = None"
  using main_line_fst [of globals0 "replicate 2147483576 0"]
  by (simp only: pipeline_overflow Option.bind.simps option.map_disc_iff)

section \<open>Shift amounts in the pipeline\<close>

text \<open>
  C9: the calls of \<open>ROTR\<close> are those of the four sigma functions, with the constant
  amounts 2, 13, 22, 6, 11, 25, 7, 18, 17 and 19. For each of them both shift amounts,
  \<open>n\<close> and \<open>32 - n\<close>, are below 32, so the call is defined and its value is the circular
  right rotation by \<open>n\<close>; the four sigma functions are defined on every word. In the
  pipeline shifts are evaluated by the steps of \<open>getHash\<close> only. The schedule step is
  defined in every state and for every \<open>t\<close>, and the word it stores is made of rotations
  by 17, 19, 7 and 18 and shifts by 10 and 3; the round step is defined in every state for
  every \<open>t\<close> below 64, and its registers are made of rotations by 6, 11, 25, 2, 13 and 22;
  \<open>getHash\<close> is defined on whatever \<open>parsingMessage\<close> returns. So no execution of the
  pipeline evaluates an out-of-range shift.
\<close>

theorem ROTR_amounts_in_range:
  "list_all (\<lambda>n. 0 < unat n \<and> unat n < 32 \<and> unat (32 - n) < 32 \<and>
              ROTR n x = Some (word_rotr (unat n) x))
     [2, 6, 7, 11, 13, 17, 18, 19, 22, 25] \<and>
   capitalSigma_0 x = Some (word_rotr 2 x XOR word_rotr 13 x XOR word_rotr 22 x) \<and>
   capitalSigma_1 x = Some (word_rotr 6 x XOR word_rotr 11 x XOR word_rotr 25 x) \<and>
   lowercaseSigma0 x = Some (word_rotr 7 x XOR word_rotr 18 x XOR drop_bit 3 x) \<and>
   lowercaseSigma1 x = Some (word_rotr 17 x XOR word_rotr 19 x XOR drop_bit 10 x) \<and>
   schedule_expand t s =
     Some (s\<lparr>gW := (gW s)(t :=
       (word_rotr 17 (gW s (t - 2)) XOR word_rotr 19 (gW s (t - 2)) XOR drop_bit 10 (gW s (t - 2)))
       + gW s (t - 7)
       + (word_rotr 7 (gW s (t - 15)) XOR word_rotr 18 (gW s (t - 15)) XOR drop_bit 3 (gW s (t - 15)))
       + gW s (t - 16))\<rparr>) \<and>
   (t < 64 \<longrightarrow>
      map_option regs_of (round_step t s) =
        Some (let T1 = gh s + (word_rotr 6 (ge s) XOR word_rotr 11 (ge s) XOR word_rotr 25 (ge s))
                       + Ch (ge s) (gf s) (gg s) + K ! t + gW s t;
                  T2 = (word_rotr 2 (ga s) XOR word_rotr 13 (ga s) XOR word_rotr 22 (ga s))
                       + Maj (ga s) (gb s) (gc s)
              in (T1 + T2, ga s, gb s, gc s, gd s + T1, ge s, gf s, gg s))) \<and>
   (parsingMessage bytes = Some M \<longrightarrow> getHash s M \<noteq> None)"
proof -
  have sig: "Sigma0_spec y = word_rotr 2 y XOR word_rotr 13 y XOR word_rotr 22 y"
    "Sigma1_spec y = word_rotr 6 y XOR word_rotr 11 y XOR word_rotr 25 y"
    "sigma0_spec y = word_rotr 7 y XOR word_rotr 18 y XOR drop_bit 3 y"
    "sigma1_spec y = word_rotr 17 y XOR word_rotr 19 y XOR drop_bit 10 y" for y
    by (simp_all add: ROTR_spec_rotr Sigma0_spec_def Sigma1_spec_def sigma0_spec_def
        sigma1_spec_def SHR_spec_def)
  have "map_option regs_of (round_step t s) =
        Some (let T1 = gh s + (word_rotr 6 (ge s) XOR word_rotr 11 (ge s) XOR word_rotr 25 (ge s))
                       + Ch (ge s) (gf s) (gg s) + K ! t + gW s t;
                  T2 = (word_rotr 2 (ga s) XOR word_rotr 13 (ga s) XOR word_rotr 22 (ga s))
                       + Maj (ga s) (gb s) (gc s)
              in (T1 + T2, ga s, gb s, gc s, gd s + T1, ge s, gf s, gg s))" if "t < 64"
    using round_step_spec [OF that, of s]
    by (auto simp: round_spec_def regs_of_def sig)
  moreover have "getHash s M \<noteq> None" if "parsingMessage bytes = Some M"
    using getHash_parsed [OF that, of s] by auto
  ultimately show ?thesis
    by (simp add: ROTR_defined ROTR_spec_rotr schedule_expand_def sig)
qed

theorem ROTR_amounts_in_range_witness:
  "ROTR 2 0x6a09e667 = Some 0xda827999 \<and>
   (0 :: nat) < 64 \<and> round_step 0 globals0 \<noteq> None \<and>
   parsingMessage [0x61, 0x62, 0x63, 0x80, 0, 0, 0, 0, 0, 0, 0, 0, 0, 0, 0, 0, 0, 0, 0, 0, 0, 0, 0, 0, 0, 0, 0, 0, 0, 0, 0, 0, 0, 0, 0, 0, 0, 0, 0, 0, 0, 0, 0, 0, 0, 0, 0, 0, 0, 0, 0, 0, 0, 0, 0, 0, 0, 0, 0, 0, 0, 0, 0, 0x18] = Some [[0x61626380, 0, 0, 0, 0, 0, 0, 0, 0, 0, 0, 0, 0, 0, 0, 0x18]] \<and>
   getHash globals0 [[0x61626380, 0, 0, 0, 0, 0, 0, 0, 0, 0, 0, 0, 0, 0, 0, 0x18]] \<noteq> None"
proof -
  have h: "parsingMessage [0x61, 0x62, 0x63, 0x80, 0, 0, 0, 0, 0, 0, 0, 0, 0, 0, 0, 0, 0, 0, 0, 0, 0, 0, 0, 0, 0, 0, 0, 0, 0, 0, 0, 0, 0, 0, 0, 0, 0, 0, 0, 0, 0, 0, 0, 0, 0, 0, 0, 0, 0, 0, 0, 0, 0, 0, 0, 0, 0, 0, 0, 0, 0, 0, 0, 0x18] = Some [[0x61626380, 0, 0, 0, 0, 0, 0, 0, 0, 0, 0, 0, 0, 0, 0, 0x18]]"
    by (simp add: parsingMessage_small parse_abc)
  have r: "word_rotr 2 (0x6a09e667 :: u32) = 0xda827999"
    by (simp add: ROTR_spec_rotr [symmetric] ROTR_spec_def)
  note T = ROTR_amounts_in_range [of "0x6a09e667" 0 globals0 "[0x61, 0x62, 0x63, 0x80, 0, 0, 0, 0, 0, 0, 0, 0, 0, 0, 0, 0, 0, 0, 0, 0, 0, 0, 0, 0, 0, 0, 0, 0, 0, 0, 0, 0, 0, 0, 0, 0, 0, 0, 0, 0, 0, 0, 0, 0, 0, 0, 0, 0, 0, 0, 0, 0, 0, 0, 0, 0, 0, 0, 0, 0, 0, 0, 0, 0x18]" "[[0x61626380, 0, 0, 0, 0, 0, 0, 0, 0, 0, 0, 0, 0, 0, 0, 0x18]]"]
  note T5 = T [THEN conjunct2, THEN conjunct2, THEN conjunct2, THEN conjunct2, THEN conjunct2]
  have "ROTR 2 0x6a09e667 = Some (word_rotr (unat (2 :: u32)) 0x6a09e667)"
    using T [THEN conjunct1] by simp
  moreover have "round_step 0 globals0 \<noteq> None"
    using T5 [THEN conjunct2, THEN conjunct1] by auto
  moreover have "getHash globals0 [[0x61626380, 0, 0, 0, 0, 0, 0, 0, 0, 0, 0, 0, 0, 0, 0, 0x18]] \<noteq> None"
    using T5 [THEN conjunct2, THEN conjunct2] h by blast
  ultimately show ?thesis
    using h by (simp add: r)
qed

section \<open>The constants\<close>

lemma small_divisor:
  fixes p d :: nat
  assumes "d dvd p" "2 \<le> d" "d < p"
  shows "\<exists>e. e dvd p \<and> 2 \<le> e \<and> e * e \<le> p"
proof -
  from assms(1) obtain c where c: "p = d * c" by (auto simp: dvd_def)
  with assms have "2 \<le> c"
    by (cases c) (auto simp: Suc_le_eq)
  show ?thesis
  proof (cases "d \<le> c")
    case True
    then have "d * d \<le> p" by (simp add: c)
    with assms show ?thesis by blast
  next
    case False
    then have "c * c \<le> p" by (simp add: c mult_le_mono1)
    moreover have "c dvd p" by (simp add: c)
    ultimately show ?thesis using \<open>2 \<le> c\<close> by blast
  qed
qed

lemma small_divisors_list:
  "small_divisors = [2, 3, 4, 5, 6, 7, 8, 9, 10, 11, 12, 13, 14, 15, 16, 17, 18]"
  by (simp add: small_divisors_def upt_rec)

lemma is_prime_nat_small:
  assumes "p < 361"
  shows "is_prime_nat p \<longleftrightarrow> 1 < p \<and> list_all (\<lambda>d. p \<le> d \<or> \<not> d dvd p) small_divisors"
proof
  assume prime: "is_prime_nat p"
  then have "\<not> d dvd p" if "2 \<le> d" "d < p" for d
    using that by (auto simp: is_prime_nat_def filter_empty_conv)
  then have "list_all (\<lambda>d. p \<le> d \<or> \<not> d dvd p) small_divisors"
    by (auto simp: list_all_iff small_divisors_def)
  with prime show "1 < p \<and> list_all (\<lambda>d. p \<le> d \<or> \<not> d dvd p) small_divisors"
    by (simp add: is_prime_nat_def)
next
  assume r: "1 < p \<and> list_all (\<lambda>d. p \<le> d \<or> \<not> d dvd p) small_divisors"
  have "\<not> d dvd p" if d: "2 \<le> d" "d < p" for d
  proof
    assume "d dvd p"
    from small_divisor [OF this d] obtain e where e: "e dvd p" "2 \<le> e" "e * e \<le> p"
      by blast
    have "e < 19"
    proof (rule ccontr)
      assume "\<not> e < 19"
      then have "19 * 19 \<le> e * e" by (intro mult_le_mono) simp_all
      with e assms show False by simp
    qed
    with e have "e \<in> {2..<19}" by simp
    then have "e \<in> set small_divisors"
      by (simp only: small_divisors_def set_upt)
    moreover have "e < p"
    proof (rule ccontr)
      assume "\<not> e < p"
      then have "2 * p \<le> e * e" using e by (intro mult_le_mono) simp_all
      with e r show False by simp
    qed
    ultimately show False using r e by (auto simp: list_all_iff)
  qed
  with r show "is_prime_nat p"
    by (auto simp: is_prime_nat_def filter_empty_conv)
qed

lemma primes_below_312:
  "primes_below 312 =
     [2, 3, 5, 7, 11, 13, 17, 19, 23, 29, 31, 37, 41, 43, 47, 53, 59, 61, 67, 71, 73, 79, 83, 89,
      97, 101, 103, 107, 109, 113, 127, 131, 137, 139, 149, 151, 157, 163, 167, 173, 179, 181,
      191, 193, 197, 199, 211, 223, 227, 229, 233, 239, 241, 251, 257, 263, 269, 271, 277, 281,
      283, 293, 307, 311]"
proof -
  have "primes_below 312 =
      filter (\<lambda>p. 1 < p \<and> list_all (\<lambda>d. p \<le> d \<or> \<not> d dvd p) small_divisors) [0..<312]"
    unfolding primes_below_def
  proof (rule filter_cong [OF refl])
    fix p :: nat
    assume "p \<in> set [0..<312]"
    then have "0 \<le> p \<and> p < 312" by (simp only: set_upt atLeastLessThan_iff)
    then have "p < 361" by simp
    then show "is_prime_nat p \<longleftrightarrow>
        1 < p \<and> list_all (\<lambda>d. p \<le> d \<or> \<not> d dvd p) small_divisors"
      by (rule is_prime_nat_small)
  qed
  also have "\<dots> = [2, 3, 5, 7, 11, 13, 17, 19, 23, 29, 31, 37, 41, 43, 47, 53, 59, 61, 67, 71, 73, 79, 83, 89,
      97, 101, 103, 107, 109, 113, 127, 131, 137, 139, 149, 151, 157, 163, 167, 173, 179, 181,
      191, 193, 197, 199, 211, 223, 227, 229, 233, 239, 241, 251, 257, 263, 269, 271, 277, 281,
      283, 293, 307, 311]"
  proof -
    have "[0..<2 + 310] = [0..<2] @ [2..<2 + 310]"
      by (rule upt_add_eq_append) simp
    then have split: "[0..<312] = [0..<2] @ [2..<312]" by simp
    have "[0..<2] = [0, 1]" by (simp add: upt_rec)
    then show ?thesis
      unfolding split by (simp add: small_divisors_list)
  qed
  finally show ?thesis .
qed

lemma floor_root:
  fixes r m :: nat
  assumes "0 < N" and "r ^ N \<le> m" and "m < (r + 1) ^ N"
  shows "\<lfloor>root N (real m)\<rfloor> = int r"
proof -
  have "root N (real (r ^ N)) \<le> root N (real m)"
    using assms by (simp only: real_root_le_iff of_nat_le_iff)
  moreover have "root N (real (r ^ N)) = real r"
    using assms(1) by (simp only: of_nat_power real_root_power_cancel of_nat_0_le_iff)
  moreover have "root N (real m) < root N (real ((r + 1) ^ N))"
    using assms by (simp only: real_root_less_iff of_nat_less_iff)
  moreover have "root N (real ((r + 1) ^ N)) = real (r + 1)"
    using assms(1) by (simp only: of_nat_power real_root_power_cancel of_nat_0_le_iff)
  ultimately show ?thesis
    by (simp add: floor_eq_iff)
qed

lemma root_frac32_eq:
  assumes "0 < N" and "root_check N p n k"
  shows "root_frac32 N p = int k"
proof -
  from assms have n: "\<lfloor>root N (real p)\<rfloor> = int n"
    by (intro floor_root) (simp_all add: root_check_def)
  from assms have "\<lfloor>root N (real (p * (2 ^ 32) ^ N))\<rfloor> = int (n * 2 ^ 32 + k)"
    by (intro floor_root) (simp_all add: root_check_def)
  moreover have "root N (real (p * (2 ^ 32) ^ N)) = root N (real p) * 2 ^ 32"
    using assms(1) real_root_power_cancel [of N "2 ^ 32"] by (simp add: real_root_mult)
  ultimately have "\<lfloor>root N (real p) * 2 ^ 32\<rfloor> = int n * 2 ^ 32 + int k"
    by simp
  moreover have "frac (root N (real p)) * 2 ^ 32 = root N (real p) * 2 ^ 32 - of_int (int n * 2 ^ 32)"
    by (simp add: frac_def n algebra_simps)
  ultimately show ?thesis
    unfolding root_frac32_def by (simp only: floor_diff_of_int)
qed

lemma root_frac32_word:
  "root_check 3 p (small_root 3 p) (unat w) \<Longrightarrow> word_of_int (root_frac32 3 p) = (w :: u32)"
  "root_check 2 p (small_root 2 p) (unat w) \<Longrightarrow> word_of_int (root_frac32 2 p) = (w :: u32)"
  by (simp_all add: root_frac32_eq)

lemmas root_eval = root_frac32_word root_check_def small_root_def numeral_2_eq_2 [symmetric]

lemma K_line1_roots:
  "map (\<lambda>p. word_of_int (root_frac32 3 p)) [2, 3, 5, 7, 11, 13, 17, 19] = K_line1"
  by (simp add: K_line1_def root_eval)

lemma K_line2_roots:
  "map (\<lambda>p. word_of_int (root_frac32 3 p)) [23, 29, 31, 37, 41, 43, 47, 53] = K_line2"
  by (simp add: K_line2_def root_eval)

lemma K_line3_roots:
  "map (\<lambda>p. word_of_int (root_frac32 3 p)) [59, 61, 67, 71, 73, 79, 83, 89] = K_line3"
  by (simp add: K_line3_def root_eval)

lemma K_line4_roots:
  "map (\<lambda>p. word_of_int (root_frac32 3 p)) [97, 101, 103, 107, 109, 113, 127, 131] = K_line4"
  by (simp add: K_line4_def root_eval)

lemma K_line5_roots:
  "map (\<lambda>p. word_of_int (root_frac32 3 p)) [137, 139, 149, 151, 157, 163, 167, 173] = K_line5"
  by (simp add: K_line5_def root_eval)

lemma K_line6_roots:
  "map (\<lambda>p. word_of_int (root_frac32 3 p)) [179, 181, 191, 193, 197, 199, 211, 223] = K_line6"
  by (simp add: K_line6_def root_eval)

lemma K_line7_roots:
  "map (\<lambda>p. word_of_int (root_frac32 3 p)) [227, 229, 233, 239, 241, 251, 257, 263] = K_line7"
  by (simp add: K_line7_def root_eval)

lemma K_line8_roots:
  "map (\<lambda>p. word_of_int (root_frac32 3 p)) [269, 271, 277, 281, 283, 293, 307, 311] = K_line8"
  by (simp add: K_line8_def root_eval)

lemma K_roots: "K = map (\<lambda>p. word_of_int (root_frac32 3 p)) (primes_below 312)"
proof -
  have "primes_below 312 =
      [2, 3, 5, 7, 11, 13, 17, 19] @ [23, 29, 31, 37, 41, 43, 47, 53] @
      [59, 61, 67, 71, 73, 79, 83, 89] @ [97, 101, 103, 107, 109, 113, 127, 131] @
      [137, 139, 149, 151, 157, 163, 167, 173] @ [179, 181, 191, 193, 197, 199, 211, 223] @
      [227, 229, 233, 239, 241, 251, 257, 263] @ [269, 271, 277, 281, 283, 293, 307, 311]"
    unfolding primes_below_312 by simp
  then show ?thesis
    by (simp only: map_append K_def K_line1_roots K_line2_roots K_line3_roots K_line4_roots
        K_line5_roots K_line6_roots K_line7_roots K_line8_roots)
qed

lemma H0_roots: "H0 = map (\<lambda>p. word_of_int (root_frac32 2 p)) (primes_below 20)"
proof -
  have "primes_below 20 = [2, 3, 5, 7, 11, 13, 17, 19]"
  proof -
    have "[0..<2 + 18] = [0..<2] @ [2..<2 + 18]"
      by (rule upt_add_eq_append) simp
    then have split: "[0..<20] = [0..<2] @ [2..<20]" by simp
    have "[0..<2] = [0, 1]" by (simp add: upt_rec)
    then show ?thesis
      unfolding primes_below_def split by (simp add: is_prime_nat_small small_divisors_list)
  qed
  then show ?thesis
    by (simp add: H0_def root_eval)
qed

text \<open>
  C5: the initial hash value of \<open>getHash\<close> is the eight words \<open>6a09e667 bb67ae85 3c6ef372
  a54ff53a 510e527f 9b05688c 1f83d9ab 5be0cd19\<close>, which are the first 32 bits of the
  fractional parts of the square roots of the primes below 20; the table \<open>K\<close> has 64
  entries, and entry \<open>i\<close> is the first 32 bits of the fractional part of the cube root of
  the \<open>i\<close>-th prime: there are exactly 64 primes below 312.
\<close>

theorem constants_match:
  "H0 = [0x6a09e667, 0xbb67ae85, 0x3c6ef372, 0xa54ff53a,
         0x510e527f, 0x9b05688c, 0x1f83d9ab, 0x5be0cd19] \<and>
   getHash s [] = Some ([H0], s) \<and>
   H0 = map (\<lambda>p. word_of_int \<lfloor>frac (sqrt (real p)) * 2 ^ 32\<rfloor>) (primes_below 20) \<and>
   length K = 64 \<and>
   length (primes_below 312) = 64 \<and>
   K = map (\<lambda>p. word_of_int \<lfloor>frac (root 3 (real p)) * 2 ^ 32\<rfloor>) (primes_below 312)"
proof -
  have "getHash s [] = Some ([H0], s)"
    by (simp add: getHash_def size_to_int_def INT_MAX_def)
  moreover have "length (primes_below 312) = 64"
    unfolding primes_below_312 by simp
  moreover have "length K = 64" by (simp add: K_table)
  ultimately show ?thesis
    using K_roots H0_roots by (simp add: root_frac32_def sqrt_def H0_def)
qed

end
